theory Spec2Isabelle
  imports Main
begin

section \<open>Strings\<close>

text \<open>
  The discovery endpoint (\<^verbatim>\<open>GET\<close> of the discover route) works on JavaScript strings.
  A string is modelled as a list of \<^typ>\<open>char\<close>: the model covers the strings whose code
  units are below 256, which contains every character the source's literals and regular
  expressions mention.
\<close>

fun startsWith :: "string \<Rightarrow> string \<Rightarrow> bool" where
  "startsWith s [] = True"
| "startsWith [] (p # ps) = False"
| "startsWith (c # cs) (p # ps) = (c = p \<and> startsWith cs ps)"

definition endsWith :: "string \<Rightarrow> string \<Rightarrow> bool" where
  "endsWith s e = startsWith (rev s) (rev e)"

text \<open>\<^verbatim>\<open>s.includes(p)\<close>: \<open>p\<close> occurs somewhere in \<open>s\<close>.\<close>

fun str_includes :: "string \<Rightarrow> string \<Rightarrow> bool" where
  "str_includes [] p = (p = [])"
| "str_includes (c # cs) p = (startsWith (c # cs) p \<or> str_includes cs p)"

text \<open>
  \<^verbatim>\<open>toLowerCase\<close> on code units below 256: A-Z and the capital letters of Latin-1
  (0xC0 to 0xDE without the multiplication sign 0xD7) move to their lower case, every
  other code unit stays.
\<close>

definition lower_table :: "(char \<times> char) list" where
  "lower_table =
     zip ''ABCDEFGHIJKLMNOPQRSTUVWXYZ'' ''abcdefghijklmnopqrstuvwxyz'' @
     [
      (CHR 0xC0, CHR 0xE0), (CHR 0xC1, CHR 0xE1), (CHR 0xC2, CHR 0xE2), (CHR 0xC3, CHR
      0xE3), (CHR 0xC4, CHR 0xE4), (CHR 0xC5, CHR 0xE5), (CHR 0xC6, CHR 0xE6), (CHR
      0xC7, CHR 0xE7), (CHR 0xC8, CHR 0xE8), (CHR 0xC9, CHR 0xE9), (CHR 0xCA, CHR 0xEA),
      (CHR 0xCB, CHR 0xEB), (CHR 0xCC, CHR 0xEC), (CHR 0xCD, CHR 0xED), (CHR 0xCE, CHR
      0xEE), (CHR 0xCF, CHR 0xEF), (CHR 0xD0, CHR 0xF0), (CHR 0xD1, CHR 0xF1), (CHR
      0xD2, CHR 0xF2), (CHR 0xD3, CHR 0xF3), (CHR 0xD4, CHR 0xF4), (CHR 0xD5, CHR 0xF5),
      (CHR 0xD6, CHR 0xF6), (CHR 0xD8, CHR 0xF8), (CHR 0xD9, CHR 0xF9), (CHR 0xDA, CHR
      0xFA), (CHR 0xDB, CHR 0xFB), (CHR 0xDC, CHR 0xFC), (CHR 0xDD, CHR 0xFD), (CHR
      0xDE, CHR 0xFE)]"

definition toLowerCase_char :: "char \<Rightarrow> char" where
  "toLowerCase_char c = (case map_of lower_table c of Some d \<Rightarrow> d | None \<Rightarrow> c)"

definition toLowerCase :: "string \<Rightarrow> string" where
  "toLowerCase s = map toLowerCase_char s"

text \<open>
  Matching under the \<^verbatim>\<open>i\<close> flag against a pattern of ASCII characters: a code unit
  matches a pattern character when both have the same ASCII upper case; no code unit
  outside ASCII is folded onto an ASCII letter.
\<close>

definition upper_table :: "(char \<times> char) list" where
  "upper_table = zip ''abcdefghijklmnopqrstuvwxyz'' ''ABCDEFGHIJKLMNOPQRSTUVWXYZ''"

definition fold_case :: "char \<Rightarrow> char" where
  "fold_case c = (case map_of upper_table c of Some d \<Rightarrow> d | None \<Rightarrow> c)"

fun ci_startsWith :: "string \<Rightarrow> string \<Rightarrow> bool" where
  "ci_startsWith s [] = True"
| "ci_startsWith [] (p # ps) = False"
| "ci_startsWith (c # cs) (p # ps) = (fold_case c = fold_case p \<and> ci_startsWith cs ps)"

text \<open>
  White space and line terminators as \<^verbatim>\<open>trim\<close> sees them, among the code units below
  256: tab, line feed, vertical tab, form feed, carriage return, space, no-break space.
\<close>

definition is_space :: "char \<Rightarrow> bool" where
  "is_space c =
     (c \<in> set [CHR 0x09, CHR 0x0A, CHR 0x0B, CHR 0x0C, CHR 0x0D, CHR 0x20, CHR 0xA0])"

definition trim :: "string \<Rightarrow> string" where
  "trim s = rev (dropWhile is_space (rev (dropWhile is_space s)))"

text \<open>The characters the dot of a regular expression does not match.\<close>

definition is_line_terminator :: "char \<Rightarrow> bool" where
  "is_line_terminator c = (c \<in> set [CHR 0x0A, CHR 0x0D])"

text \<open>A \<^verbatim>\<open>Set<string>\<close> keeps insertion order and ignores a second \<^verbatim>\<open>add\<close>.\<close>

definition set_add :: "string list \<Rightarrow> string \<Rightarrow> string list" where
  "set_add xs x = (if x \<in> set xs then xs else xs @ [x])"

section \<open>Sitemap reader\<close>

text \<open>
  \<^verbatim>\<open>isSitemapIndex(xml) = xml.includes("<sitemapindex") || xml.includes("<sitemap>")\<close>
\<close>

definition isSitemapIndex :: "string \<Rightarrow> bool" where
  "isSitemapIndex xml = (str_includes xml ''<sitemapindex'' \<or> str_includes xml ''<sitemap>'')"

section \<open>The platform's URL class\<close>

text \<open>
  \<^verbatim>\<open>new URL(s)\<close>, the setter \<^verbatim>\<open>hash = ""\<close>, \<^verbatim>\<open>toString()\<close>, the getters
  \<^verbatim>\<open>pathname\<close> and \<^verbatim>\<open>origin\<close>, and \<^verbatim>\<open>String.prototype.localeCompare\<close> belong
  to the JavaScript platform, not to the repository. They are parameters of the model:
  \<open>'u\<close> is the platform's URL object, and \<open>URL_parse\<close> is \<open>None\<close> where the
  constructor throws.
\<close>

record 'u platform =
  URL_parse :: "string \<Rightarrow> 'u option"
  URL_clear_hash :: "'u \<Rightarrow> 'u"
  URL_toString :: "'u \<Rightarrow> string"
  URL_pathname :: "'u \<Rightarrow> string"
  URL_origin :: "'u \<Rightarrow> string"
  localeCompare :: "string \<Rightarrow> string \<Rightarrow> int"

section \<open>URL normalizer\<close>

definition NON_HTML_EXTENSIONS :: "string list" where
  "NON_HTML_EXTENSIONS =
     [''.pdf'', ''.doc'', ''.docx'', ''.xls'', ''.xlsx'', ''.ppt'', ''.pptx'',
      ''.zip'', ''.rar'', ''.7z'', ''.tar'', ''.gz'',
      ''.mp3'', ''.mp4'', ''.avi'', ''.mov'', ''.wmv'', ''.wav'', ''.ogg'',
      ''.jpg'', ''.jpeg'', ''.png'', ''.gif'', ''.webp'', ''.svg'', ''.ico'', ''.bmp'', ''.tiff'',
      ''.css'', ''.js'', ''.json'', ''.txt'', ''.csv'',
      ''.woff'', ''.woff2'', ''.ttf'', ''.eot'', ''.otf'']"

definition isNonHtmlResource :: "'u platform \<Rightarrow> string \<Rightarrow> bool" where
  "isNonHtmlResource plat url =
     (case URL_parse plat url of
        None \<Rightarrow> False
      | Some u \<Rightarrow>
          (let pathname = toLowerCase (URL_pathname plat u)
           in list_ex (\<lambda>ext. endsWith pathname ext) NON_HTML_EXTENSIONS))"

definition cleanUrl :: "'u platform \<Rightarrow> string \<Rightarrow> string" where
  "cleanUrl plat url =
     (case URL_parse plat url of
        None \<Rightarrow> url
      | Some urlObj \<Rightarrow> URL_toString plat (URL_clear_hash plat urlObj))"

section \<open>Regular expressions of the sitemap reader\<close>

text \<open>
  \<^verbatim>\<open>[\s\S]*?\<close> followed by a closing literal, matched case-insensitively: the shortest
  run of arbitrary characters after which the literal stands. The result is the matched
  text (the run and the literal as the input spells it) and the input after the match.
\<close>

fun lazy_any_until :: "string \<Rightarrow> string \<Rightarrow> (string \<times> string) option" where
  "lazy_any_until lit [] = (if lit = [] then Some ([], []) else None)"
| "lazy_any_until lit (c # cs) =
     (if ci_startsWith (c # cs) lit
      then Some (take (length lit) (c # cs), drop (length lit) (c # cs))
      else map_option (\<lambda>(m, r). (c # m, r)) (lazy_any_until lit cs))"

text \<open>
  \<^verbatim>\<open>(.*?)\<close> followed by a closing literal: as above, but the dot does not match a line
  terminator. The result is the captured group and the input after the match.
\<close>

fun lazy_dot_until :: "string \<Rightarrow> string \<Rightarrow> (string \<times> string) option" where
  "lazy_dot_until lit [] = (if lit = [] then Some ([], []) else None)"
| "lazy_dot_until lit (c # cs) =
     (if ci_startsWith (c # cs) lit then Some ([], drop (length lit) (c # cs))
      else if is_line_terminator c then None
      else map_option (\<lambda>(m, r). (c # m, r)) (lazy_dot_until lit cs))"

text \<open>
  One attempt of \<^verbatim>\<open>/<TAG[^>]*>[\s\S]*?<\/TAG>/i\<close> at the start of the input: the
  matched text and the input after it. \<^verbatim>\<open>[^>]*\<close> can only end at the first
  \<^verbatim>\<open>>\<close>.
\<close>

definition element_match :: "string \<Rightarrow> string \<Rightarrow> (string \<times> string) option" where
  "element_match tag s =
     (if ci_startsWith s (CHR ''<'' # tag)
      then (let r1 = drop (Suc (length tag)) s
            in (case dropWhile (\<lambda>c. c \<noteq> CHR ''>'') r1 of
                  [] \<Rightarrow> None
                | g # r2 \<Rightarrow>
                    (case lazy_any_until (''</'' @ tag @ ''>'') r2 of
                       None \<Rightarrow> None
                     | Some (m, rest) \<Rightarrow>
                         Some (take (Suc (length tag)) s @
                               takeWhile (\<lambda>c. c \<noteq> CHR ''>'') r1 @ g # m, rest))))
      else None)"

text \<open>One attempt of \<^verbatim>\<open>/<loc>(.*?)<\/loc>/i\<close> at the start of the input.\<close>

definition loc_match :: "string \<Rightarrow> (string \<times> string) option" where
  "loc_match s =
     (if ci_startsWith s ''<loc>'' then lazy_dot_until ''</loc>'' (drop 5 s) else None)"

lemma lazy_any_until_length:
  "lazy_any_until lit s = Some (m, r) \<Longrightarrow> lit \<noteq> [] \<Longrightarrow> length r < length s"
  by (induction s arbitrary: m) (auto split: if_splits)

lemma lazy_dot_until_length:
  "lazy_dot_until lit s = Some (m, r) \<Longrightarrow> length r \<le> length s"
  by (induction s arbitrary: m) (auto split: if_splits)

lemma element_match_length:
  assumes "element_match tag s = Some (m, r)"
  shows "length r < length s"
proof -
  from assms obtain g r2 m' where
    d: "dropWhile (\<lambda>c. c \<noteq> CHR ''>'') (drop (Suc (length tag)) s) = g # r2" and
    l: "lazy_any_until (''</'' @ tag @ ''>'') r2 = Some (m', r)"
    by (auto simp: element_match_def Let_def split: if_splits list.splits option.splits)
  from l have "length r < length r2"
    by (rule lazy_any_until_length) simp
  moreover have "length (g # r2) \<le> length (drop (Suc (length tag)) s)"
    using d length_dropWhile_le by metis
  ultimately show ?thesis by simp
qed

lemma loc_match_length:
  assumes "loc_match s = Some (m, r)"
  shows "length r < length s"
proof -
  from assms have c: "ci_startsWith s ''<loc>''" and
    l: "lazy_dot_until ''</loc>'' (drop 5 s) = Some (m, r)"
    by (auto simp: loc_match_def split: if_splits)
  from c have "s \<noteq> []" by (cases s) auto
  moreover from l have "length r \<le> length (drop 5 s)" by (rule lazy_dot_until_length)
  ultimately show ?thesis by (cases s) auto
qed

text \<open>
  \<^verbatim>\<open>xml.match(/<TAG[^>]*>[\s\S]*?<\/TAG>/gi) || []\<close>: all matches from left to right,
  each search starting where the previous match ended.
\<close>

function match_elements :: "string \<Rightarrow> string \<Rightarrow> string list" where
  "match_elements tag [] = []"
| "match_elements tag (c # cs) =
     (case element_match tag (c # cs) of
        None \<Rightarrow> match_elements tag cs
      | Some (m, rest) \<Rightarrow> m # match_elements tag rest)"
  by pat_completeness auto
termination
  by (relation "measure (\<lambda>(tag, s). length s)") (auto dest: element_match_length)

text \<open>\<^verbatim>\<open>xml.match(/<loc>(.*?)<\/loc>/gi) || []\<close>: the matched texts.\<close>

function match_locs :: "string \<Rightarrow> string list" where
  "match_locs [] = []"
| "match_locs (c # cs) =
     (case loc_match (c # cs) of
        None \<Rightarrow> match_locs cs
      | Some (cap, rest) \<Rightarrow>
          take (length (c # cs) - length rest) (c # cs) # match_locs rest)"
  by pat_completeness auto
termination
  by (relation "measure length") (auto dest: loc_match_length)

text \<open>\<^verbatim>\<open>match.match(/<loc>(.*?)<\/loc>/i)\<close>: group 1 of the leftmost match.\<close>

fun first_loc :: "string \<Rightarrow> string option" where
  "first_loc [] = None"
| "first_loc (c # cs) =
     (case loc_match (c # cs) of
        None \<Rightarrow> first_loc cs
      | Some (cap, rest) \<Rightarrow> Some cap)"

text \<open>
  \<^verbatim>\<open>match.replace(/<\/?loc>/gi, "")\<close>: an opening tag is the character at hand and
  four more, a closing tag the character at hand and five more.
\<close>

fun remove_loc_tags :: "string \<Rightarrow> string" where
  "remove_loc_tags [] = []"
| "remove_loc_tags (c # cs) =
     (if ci_startsWith (c # cs) ''<loc>'' then remove_loc_tags (drop 4 cs)
      else if ci_startsWith (c # cs) ''</loc>'' then remove_loc_tags (drop 5 cs)
      else c # remove_loc_tags cs)"

section \<open>Sitemap reader: extraction\<close>

definition extractSitemapUrls :: "string \<Rightarrow> string list" where
  "extractSitemapUrls xml =
     concat (map (\<lambda>m. case first_loc m of
                         None \<Rightarrow> []
                       | Some cap \<Rightarrow> if cap \<noteq> [] then [trim cap] else [])
                 (match_elements ''sitemap'' xml))"

definition parseSitemapUrls :: "string \<Rightarrow> string list" where
  "parseSitemapUrls xml =
     (let urls = foldl (\<lambda>urls m. case first_loc m of
                                   None \<Rightarrow> urls
                                 | Some cap \<Rightarrow> if cap \<noteq> [] then set_add urls (trim cap) else urls)
                       [] (match_elements ''url'' xml)
      in if length urls = 0
         then foldl (\<lambda>urls m. let loc = trim (remove_loc_tags m)
                               in if \<not> endsWith loc ''.xml'' \<and> \<not> str_includes loc ''sitemap''
                                  then set_add urls loc else urls)
                    [] (match_locs xml)
         else urls)"

section \<open>Discovery: events, effects and the outside world\<close>

text \<open>
  The objects handed to \<^verbatim>\<open>sendEvent\<close>. The \<^verbatim>\<open>message\<close> strings are kept as the
  template that builds them, with the values the template interpolates.
\<close>

datatype phase = Starting | Sitemap | SitemapDone | Browser | Scanning

datatype message =
    StartingSitemapDiscovery
  | StartingPageCrawl
  | FetchingSitemap string
  | FoundSitemapIndex nat
  | ProcessingSitemaps nat nat nat
  | ParsingSitemap
  | SitemapParsed nat
  | LaunchingBrowser
  | ScanningPage nat string
  | FoundNewLinks nat string nat
  | AllReachableScanned nat
  | DiscoveryCompleteSitemap nat
  | DiscoveryCompleteCrawl nat nat
  | FailedToParseSitemap
  | DiscoveryFailed

datatype event =
    Status (ev_phase: phase) (ev_message: message) (ev_total: nat) (ev_fromSitemap: nat)
      (ev_pagesScanned: nat) (ev_currentUrl: "string option")
  | Done (ev_message: message) (ev_links: "string list") (ev_total: nat) (ev_fromSitemap: nat)
      (ev_fromPages: nat) (ev_pagesScanned: nat)
  | Error (ev_message: message)

text \<open>
  What a run does to the outside, in order: the calls of \<^verbatim>\<open>sendEvent\<close>, the sitemap
  fetches, the browser calls, and the final \<^verbatim>\<open>close()\<close> of the stream.
  \<open>Enqueue\<close> records a URL entering \<^verbatim>\<open>pagesToVisit\<close> (the initial array and every
  \<^verbatim>\<open>push\<close>), so that the history of the frontier can be read off a run.
\<close>

datatype effect =
    SendEvent event
  | FetchXml string
  | ChromiumLaunch
  | PageGoto string
  | Enqueue string
  | BrowserClose
  | StreamClose

text \<open>
  The network and the browser are the run's environment. \<open>fetchXml\<close> is the settled
  result of the source's \<^verbatim>\<open>fetchXml(url)\<close> (\<open>None\<close>: the promise rejects);
  \<open>browser_setup\<close> says how far \<^verbatim>\<open>chromium.launch\<close>, \<^verbatim>\<open>newContext\<close> and
  \<^verbatim>\<open>newPage\<close> get; \<open>page_links selector n url\<close> is what \<^verbatim>\<open>page.goto(url)\<close> followed
  by \<^verbatim>\<open>page.$$eval(selector, ...)\<close> yields on the \<open>n\<close>-th page visit (\<open>None\<close>: one
  of them throws); \<open>browser_close\<close> says whether \<^verbatim>\<open>await browser.close()\<close> after the
  loop returns (\<open>False\<close>: it throws).
\<close>

datatype setup_outcome = LaunchThrows | ContextThrows | BrowserReady

record world =
  fetchXml :: "string \<Rightarrow> string option"
  browser_setup :: setup_outcome
  page_links :: "string \<Rightarrow> nat \<Rightarrow> string \<Rightarrow> string list option"
  browser_close :: bool

text \<open>The variables of the handler's closure, and the effects so far.\<close>

record state =
  discoveredLinks :: "string list"
  visited :: "string list"
  sitemapLinksCount :: nat
  pagesToVisit :: "string list"
  pagesVisited :: nat
  newLinksFromPages :: nat
  trace :: "effect list"

definition effect_of :: "state \<Rightarrow> effect \<Rightarrow> state" where
  "effect_of s e = s\<lparr>trace := trace s @ [e]\<rparr>"

definition emit :: "state \<Rightarrow> event \<Rightarrow> state" where
  "emit s ev = effect_of s (SendEvent ev)"

section \<open>Sorting the discovered links\<close>

text \<open>\<^verbatim>\<open>path.split('/')\<close>\<close>

fun split_on :: "char \<Rightarrow> string \<Rightarrow> string list" where
  "split_on d [] = [[]]"
| "split_on d (c # cs) =
     (if c = d then [] # split_on d cs
      else (case split_on d cs of
              [] \<Rightarrow> [[c]]
            | w # ws \<Rightarrow> (c # w) # ws))"

text \<open>\<^verbatim>\<open>path.split('/').filter(Boolean).length\<close>\<close>

definition path_depth :: "string \<Rightarrow> nat" where
  "path_depth path = length (filter (\<lambda>seg. seg \<noteq> []) (split_on (CHR ''/'') path))"

text \<open>The comparator of both \<^verbatim>\<open>sort\<close> calls; the \<^verbatim>\<open>catch\<close> compares the raw strings.\<close>

definition compare_links :: "'u platform \<Rightarrow> string \<Rightarrow> string \<Rightarrow> int" where
  "compare_links plat a b =
     (case URL_parse plat a of
        None \<Rightarrow> localeCompare plat a b
      | Some ua \<Rightarrow>
          (case URL_parse plat b of
             None \<Rightarrow> localeCompare plat a b
           | Some ub \<Rightarrow>
               (let pathA = URL_pathname plat ua;
                    pathB = URL_pathname plat ub;
                    depthA = path_depth pathA;
                    depthB = path_depth pathB
                in if depthA \<noteq> depthB then int depthA - int depthB
                   else localeCompare plat pathA pathB)))"

text \<open>
  \<^verbatim>\<open>Array.prototype.sort\<close> is stable. For a comparator that is a consistent ordering
  every conforming engine returns the same array, which is what this insertion sort
  returns; for an inconsistent comparator the language leaves the order to the engine.
\<close>

fun insert_by :: "('a \<Rightarrow> 'a \<Rightarrow> int) \<Rightarrow> 'a \<Rightarrow> 'a list \<Rightarrow> 'a list" where
  "insert_by cmp x [] = [x]"
| "insert_by cmp x (y # ys) = (if cmp x y \<le> 0 then x # y # ys else y # insert_by cmp x ys)"

definition sort_by :: "('a \<Rightarrow> 'a \<Rightarrow> int) \<Rightarrow> 'a list \<Rightarrow> 'a list" where
  "sort_by cmp xs = foldr (insert_by cmp) xs []"

definition sortLinks :: "'u platform \<Rightarrow> string list \<Rightarrow> string list" where
  "sortLinks plat discovered = sort_by (compare_links plat) discovered"

section \<open>Discovery, mode 1: sitemap\<close>

text \<open>The body of the loops over the URLs of a parsed sitemap.\<close>

definition add_sitemap_url :: "'u platform \<Rightarrow> string \<Rightarrow> state \<Rightarrow> string \<Rightarrow> state" where
  "add_sitemap_url plat origin s url =
     (if startsWith url origin \<and> \<not> isNonHtmlResource plat url
      then s\<lparr>discoveredLinks := set_add (discoveredLinks s) (cleanUrl plat url),
             sitemapLinksCount := sitemapLinksCount s + 1\<rparr>
      else s)"

definition add_sitemap_urls :: "'u platform \<Rightarrow> string \<Rightarrow> state \<Rightarrow> string list \<Rightarrow> state" where
  "add_sitemap_urls plat origin s urls = foldl (add_sitemap_url plat origin) s urls"

text \<open>One child sitemap of a batch: a failed fetch counts as no URLs.\<close>

definition fetch_child :: "world \<Rightarrow> string \<Rightarrow> string list" where
  "fetch_child w url =
     (case fetchXml w url of None \<Rightarrow> [] | Some childXml \<Rightarrow> parseSitemapUrls childXml)"

definition PARALLEL_LIMIT :: nat where
  "PARALLEL_LIMIT = 5"

text \<open>
  \<^verbatim>\<open>for (let i = 0; i < childSitemapUrls.length; i += PARALLEL_LIMIT)\<close>: the fetches of
  a batch start together, their results are added in the batch's order, then a status
  event is sent. \<open>sitemap_batch\<close> is the loop's body.
\<close>

definition sitemap_batch ::
  "'u platform \<Rightarrow> world \<Rightarrow> string \<Rightarrow> string list \<Rightarrow> nat \<Rightarrow> state \<Rightarrow> state" where
  "sitemap_batch plat w origin childSitemapUrls i s =
     (let batch = take PARALLEL_LIMIT (drop i childSitemapUrls);
          s1 = foldl effect_of s (map FetchXml batch);
          results = map (fetch_child w) batch;
          s2 = foldl (add_sitemap_urls plat origin) s1 results
      in emit s2 (Status Sitemap
                    (ProcessingSitemaps (i + length batch) (length childSitemapUrls)
                       (sitemapLinksCount s2))
                    (length (discoveredLinks s2)) (sitemapLinksCount s2) 0 None))"

function sitemap_batches ::
  "'u platform \<Rightarrow> world \<Rightarrow> string \<Rightarrow> string list \<Rightarrow> nat \<Rightarrow> state \<Rightarrow> state" where
  "sitemap_batches plat w origin childSitemapUrls i s =
     (if i < length childSitemapUrls
      then sitemap_batches plat w origin childSitemapUrls (i + PARALLEL_LIMIT)
             (sitemap_batch plat w origin childSitemapUrls i s)
      else s)"
  by pat_completeness auto
termination
  by (relation "measure (\<lambda>(plat, w, origin, cs, i, s). length cs - i)")
     (auto simp: PARALLEL_LIMIT_def)

declare sitemap_batches.simps [simp del]

text \<open>The branch on \<^verbatim>\<open>isSitemapIndex(xml)\<close>: an index with its batches, or a regular sitemap.\<close>

definition collect_sitemap :: "'u platform \<Rightarrow> world \<Rightarrow> string \<Rightarrow> string \<Rightarrow> state \<Rightarrow> state" where
  "collect_sitemap plat w origin xml s =
     (if isSitemapIndex xml
      then (let childSitemapUrls = extractSitemapUrls xml
            in sitemap_batches plat w origin childSitemapUrls 0
                 (emit s (Status Sitemap (FoundSitemapIndex (length childSitemapUrls))
                            (length (discoveredLinks s)) 0 0 None)))
      else add_sitemap_urls plat origin
             (emit s (Status Sitemap ParsingSitemap (length (discoveredLinks s)) 0 0 None))
             (parseSitemapUrls xml))"

definition sitemap_mode :: "'u platform \<Rightarrow> world \<Rightarrow> string \<Rightarrow> string \<Rightarrow> state \<Rightarrow> state" where
  "sitemap_mode plat w origin sitemapUrl s0 =
     (let s1 = emit s0 (Status Sitemap (FetchingSitemap sitemapUrl)
                  (length (discoveredLinks s0)) 0 0 None);
          s2 = effect_of s1 (FetchXml sitemapUrl)
      in case fetchXml w sitemapUrl of
           None \<Rightarrow> emit s2 (Error FailedToParseSitemap)
         | Some xml \<Rightarrow>
             (let s3 = collect_sitemap plat w origin xml s2;
                  s4 = emit s3 (Status SitemapDone (SitemapParsed (sitemapLinksCount s3))
                         (length (discoveredLinks s3)) (sitemapLinksCount s3) 0 None);
                  sortedLinks = sortLinks plat (discoveredLinks s4)
              in emit s4 (Done (DiscoveryCompleteSitemap (sitemapLinksCount s4)) sortedLinks
                    (length sortedLinks) (sitemapLinksCount s4) 0 0)))"

section \<open>Discovery, mode 2: crawling pages\<close>

text \<open>
  \<^verbatim>\<open>buildScopedSelector(baseSelector, "a[href]")\<close> and the selector that
  \<^verbatim>\<open>extractLinksFromPage\<close> evaluates.
\<close>

fun join :: "string \<Rightarrow> string list \<Rightarrow> string" where
  "join sep [] = []"
| "join sep [x] = x"
| "join sep (x # y # ys) = x @ sep @ join sep (y # ys)"

definition buildScopedSelector :: "string \<Rightarrow> string \<Rightarrow> string" where
  "buildScopedSelector baseSelector targetSelector =
     join '', '' (map (\<lambda>s. trim s @ '' '' @ targetSelector) (split_on (CHR '','') baseSelector))"

definition link_selector :: "string option \<Rightarrow> string" where
  "link_selector cssSelector =
     (case cssSelector of
        None \<Rightarrow> ''a[href]''
      | Some c \<Rightarrow> if c = [] then ''a[href]'' else buildScopedSelector c ''a[href]'')"

definition MAX_PAGES_SAFETY :: nat where
  "MAX_PAGES_SAFETY = 5000"

text \<open>The body of \<^verbatim>\<open>for (const link of links)\<close>.\<close>

definition scan_link :: "'u platform \<Rightarrow> string \<Rightarrow> state \<Rightarrow> string \<Rightarrow> state" where
  "scan_link plat origin s link =
     (let cleanedLink = cleanUrl plat link
      in if startsWith cleanedLink origin \<and> \<not> isNonHtmlResource plat cleanedLink \<and>
            cleanedLink \<notin> set (discoveredLinks s)
         then (let s1 = s\<lparr>discoveredLinks := discoveredLinks s @ [cleanedLink],
                          newLinksFromPages := newLinksFromPages s + 1\<rparr>
               in if cleanedLink \<notin> set (visited s1)
                  then effect_of (s1\<lparr>pagesToVisit := pagesToVisit s1 @ [cleanedLink]\<rparr>)
                         (Enqueue cleanedLink)
                  else s1)
         else s)"

definition scan_links :: "'u platform \<Rightarrow> string \<Rightarrow> state \<Rightarrow> string list \<Rightarrow> state" where
  "scan_links plat origin s links = foldl (scan_link plat origin) s links"

text \<open>
  The loop body from \<^verbatim>\<open>const previousSize\<close> on, for the page \<open>url\<close> just shifted off
  the queue and counted. \<open>Inl\<close>: \<^verbatim>\<open>new URL(url)\<close> of the first status message throws,
  which leaves the loop for the outer \<^verbatim>\<open>catch\<close>. Inside the \<^verbatim>\<open>try\<close>, a throw of
  \<^verbatim>\<open>goto\<close>, of the extraction or of the second message's \<^verbatim>\<open>new URL(url)\<close> skips
  the rest of the \<^verbatim>\<open>try\<close> block only.
\<close>

definition visit_page ::
  "'u platform \<Rightarrow> world \<Rightarrow> string \<Rightarrow> string \<Rightarrow> string \<Rightarrow> state \<Rightarrow> state + state" where
  "visit_page plat w selector origin url s =
     (let previousSize = length (discoveredLinks s)
      in case (if pagesVisited s mod 5 = 1 \<or> pagesVisited s = 1
               then (case URL_parse plat url of
                       None \<Rightarrow> None
                     | Some u \<Rightarrow>
                         Some (emit s (Status Scanning
                                 (ScanningPage (pagesVisited s) (URL_pathname plat u))
                                 (length (discoveredLinks s)) 0 (pagesVisited s) (Some url))))
               else Some s) of
           None \<Rightarrow> Inl s
         | Some s1 \<Rightarrow>
             (let s2 = effect_of s1 (PageGoto url);
                  s3 = (case page_links w selector (pagesVisited s) url of
                          None \<Rightarrow> s2
                        | Some links \<Rightarrow>
                            (let s' = scan_links plat origin s2 links;
                                 newLinksFound = length (discoveredLinks s') - previousSize
                             in if newLinksFound > 0
                                then (case URL_parse plat url of
                                        None \<Rightarrow> s'
                                      | Some u \<Rightarrow>
                                          emit s' (Status Scanning
                                            (FoundNewLinks newLinksFound (URL_pathname plat u)
                                               (length (discoveredLinks s')))
                                            (length (discoveredLinks s')) 0 (pagesVisited s')
                                            None))
                                else s'))
              in Inr (if pagesToVisit s3 = []
                      then emit s3 (Status Scanning (AllReachableScanned (pagesVisited s3))
                             (length (discoveredLinks s3)) 0 (pagesVisited s3) None)
                      else s3)))"

lemma foldl_effect_of_fields:
  "pagesVisited (foldl effect_of s es) = pagesVisited s"
  by (induction es arbitrary: s) (auto simp: effect_of_def)

lemma scan_link_pagesVisited: "pagesVisited (scan_link plat origin s link) = pagesVisited s"
  by (simp add: scan_link_def effect_of_def Let_def)

lemma scan_links_pagesVisited: "pagesVisited (scan_links plat origin s links) = pagesVisited s"
  unfolding scan_links_def
  by (induction links arbitrary: s) (auto simp: scan_link_pagesVisited)

lemma visit_page_pagesVisited:
  "visit_page plat w selector origin url s = Inr s' \<Longrightarrow> pagesVisited s' = pagesVisited s"
  by (auto simp: visit_page_def Let_def emit_def effect_of_def scan_links_pagesVisited
           split: if_splits option.splits)

text \<open>
  \<^verbatim>\<open>while (pagesToVisit.length > 0 && pagesVisited < MAX_PAGES_SAFETY)\<close>. The result is
  \<open>Inr\<close> when the loop ends by its condition, \<open>Inl\<close> when an exception leaves it.
\<close>

function crawl_loop ::
  "'u platform \<Rightarrow> world \<Rightarrow> string \<Rightarrow> string \<Rightarrow> state \<Rightarrow> state + state" where
  "crawl_loop plat w selector origin s =
     (case pagesToVisit s of
        [] \<Rightarrow> Inr s
      | url # rest \<Rightarrow>
          if \<not> pagesVisited s < MAX_PAGES_SAFETY then Inr s
          else if url \<in> set (visited s)
          then crawl_loop plat w selector origin (s\<lparr>pagesToVisit := rest\<rparr>)
          else (case visit_page plat w selector origin url
                       (s\<lparr>pagesToVisit := rest, visited := visited s @ [url],
                          pagesVisited := pagesVisited s + 1\<rparr>) of
                  Inl s' \<Rightarrow> Inl s'
                | Inr s' \<Rightarrow> crawl_loop plat w selector origin s'))"
  by pat_completeness auto
termination
  by (relation "measures [\<lambda>(plat, w, selector, origin, s). MAX_PAGES_SAFETY - pagesVisited s,
                          \<lambda>(plat, w, selector, origin, s). length (pagesToVisit s)]")
     (auto dest!: visit_page_pagesVisited)

declare crawl_loop.simps [simp del]

text \<open>
  Crawl mode, from the status event before the launch to the \<^verbatim>\<open>done\<close> event. An
  exception on the way is caught by the outer \<^verbatim>\<open>catch\<close>, which sends the
  \<^verbatim>\<open>error\<close> event and closes the browser if there is one: that is so for the launch
  and the set-up of the page, for an exception that leaves the loop, and for
  \<^verbatim>\<open>await browser.close()\<close> after the loop, which stands before the sorting and the
  \<^verbatim>\<open>done\<close> event (the variable \<^verbatim>\<open>browser\<close> is then still set, and
  \<^verbatim>\<open>close\<close> is called a second time).
\<close>

definition crawl_mode ::
  "'u platform \<Rightarrow> world \<Rightarrow> string option \<Rightarrow> string \<Rightarrow> string \<Rightarrow> state \<Rightarrow> state" where
  "crawl_mode plat w cssSelector origin startUrl s0 =
     (let s1 = emit s0 (Status Browser LaunchingBrowser (length (discoveredLinks s0)) 0 0 None);
          s2 = effect_of s1 ChromiumLaunch
      in case browser_setup w of
           LaunchThrows \<Rightarrow> emit s2 (Error DiscoveryFailed)
         | ContextThrows \<Rightarrow> effect_of (emit s2 (Error DiscoveryFailed)) BrowserClose
         | BrowserReady \<Rightarrow>
             (case crawl_loop plat w (link_selector cssSelector) origin
                     (effect_of (s2\<lparr>pagesToVisit := [startUrl], pagesVisited := 0,
                                    newLinksFromPages := 0\<rparr>) (Enqueue startUrl)) of
                Inl s' \<Rightarrow> effect_of (emit s' (Error DiscoveryFailed)) BrowserClose
              | Inr s' \<Rightarrow>
                  (let s5 = effect_of s' BrowserClose
                   in if browser_close w
                      then (let sortedLinks = sortLinks plat (discoveredLinks s5)
                            in emit s5 (Done (DiscoveryCompleteCrawl (pagesVisited s5)
                                                (length sortedLinks))
                                  sortedLinks (length sortedLinks) 0 (newLinksFromPages s5)
                                  (pagesVisited s5)))
                      else effect_of (emit s5 (Error DiscoveryFailed)) BrowserClose)))"

section \<open>The handler\<close>

text \<open>
  The asynchronous body of \<^verbatim>\<open>GET\<close>: \<^verbatim>\<open>new URL(startUrl).origin\<close> may throw into the
  outer \<^verbatim>\<open>catch\<close>; the start URL is added to the discovered set before the mode is
  chosen.
\<close>

definition discovery ::
  "'u platform \<Rightarrow> world \<Rightarrow> string \<Rightarrow> string option \<Rightarrow> string option \<Rightarrow> state" where
  "discovery plat w startUrl sitemapUrl cssSelector =
     (let s0 = \<lparr>discoveredLinks = [], visited = [], sitemapLinksCount = 0, pagesToVisit = [],
                pagesVisited = 0, newLinksFromPages = 0, trace = []\<rparr>
      in case URL_parse plat startUrl of
           None \<Rightarrow> emit s0 (Error DiscoveryFailed)
         | Some u \<Rightarrow>
             (let origin = URL_origin plat u;
                  hasSitemap = (case sitemapUrl of None \<Rightarrow> False | Some sm \<Rightarrow> sm \<noteq> []);
                  s1 = emit s0 (Status Starting
                         (if hasSitemap then StartingSitemapDiscovery else StartingPageCrawl)
                         0 0 0 None);
                  s2 = s1\<lparr>discoveredLinks := set_add (discoveredLinks s1) (cleanUrl plat startUrl)\<rparr>
              in case sitemapUrl of
                   None \<Rightarrow> crawl_mode plat w cssSelector origin startUrl s2
                 | Some sm \<Rightarrow>
                     if sm \<noteq> [] then sitemap_mode plat w origin sm s2
                     else crawl_mode plat w cssSelector origin startUrl s2))"

text \<open>
  \<^verbatim>\<open>GET\<close>: status 400 without a start URL, otherwise the run's effects, ending with
  the \<^verbatim>\<open>close()\<close> of the \<^verbatim>\<open>finally\<close> block.
\<close>

definition GET ::
  "'u platform \<Rightarrow> world \<Rightarrow> string option \<Rightarrow> string option \<Rightarrow> string option \<Rightarrow> nat + effect list" where
  "GET plat w startUrl sitemapUrl cssSelector =
     (case startUrl of
        None \<Rightarrow> Inl 400
      | Some su \<Rightarrow>
          if su = [] then Inl 400
          else Inr (trace (discovery plat w su sitemapUrl cssSelector) @ [StreamClose]))"

section \<open>Event emitter\<close>

text \<open>
  \<^verbatim>\<open>createSSEResponse\<close> closes over the stream's controller and the flag
  \<^verbatim>\<open>isClosed\<close>. The controller belongs to the platform: its state is a type parameter,
  and its two operations report whether they returned normally (\<open>True\<close>) or threw, with
  the controller's next state. \<^verbatim>\<open>JSON.stringify\<close> is a parameter too (\<open>None\<close> when
  it throws).
\<close>

record ('c, 'e) stream_ops =
  enqueue :: "'c \<Rightarrow> string \<Rightarrow> bool \<times> 'c"
  controller_close :: "'c \<Rightarrow> bool \<times> 'c"
  stringify :: "'e \<Rightarrow> string option"

record 'c sse =
  controller :: 'c
  isClosed :: bool

definition createSSEResponse :: "'c \<Rightarrow> 'c sse" where
  "createSSEResponse c = \<lparr>controller = c, isClosed = False\<rparr>"

definition sendEvent :: "('c, 'e) stream_ops \<Rightarrow> 'c sse \<Rightarrow> 'e \<Rightarrow> 'c sse" where
  "sendEvent ops s d =
     (if isClosed s then s
      else (case stringify ops d of
              None \<Rightarrow> s\<lparr>isClosed := True\<rparr>
            | Some j \<Rightarrow>
                (case enqueue ops (controller s) (''data: '' @ j @ [CHR 0x0A, CHR 0x0A]) of
                   (True, c') \<Rightarrow> s\<lparr>controller := c'\<rparr>
                 | (False, c') \<Rightarrow> s\<lparr>controller := c', isClosed := True\<rparr>)))"

definition close :: "('c, 'e) stream_ops \<Rightarrow> 'c sse \<Rightarrow> 'c sse" where
  "close ops s =
     (if \<not> isClosed s
      then (case controller_close ops (controller s) of
              (ok, c') \<Rightarrow> s\<lparr>controller := c', isClosed := True\<rparr>)
      else s)"

section \<open>What the properties ask of the platform\<close>



section \<open>A small platform for running the model\<close>

text \<open>
  To evaluate the model on concrete inputs a platform is needed. \<open>http_platform\<close>
  stands in for the URL class on \<^verbatim>\<open>http\<close> and \<^verbatim>\<open>https\<close> URLs whose host is a domain
  name, after the URL Standard's parser: leading and trailing C0 controls and spaces are
  removed, and tabs and newlines everywhere; the scheme is matched without regard to
  case, and the slashes and backslashes after it are skipped; the host ends at the first
  slash, backslash, \<^verbatim>\<open>?\<close> or \<^verbatim>\<open>#\<close>, must not be empty nor hold a forbidden code
  point, and is put in lower case; a backslash in the path counts as a slash and an
  empty path is \<^verbatim>\<open>/\<close>; path, query and fragment are percent-encoded, each with its
  set of code points, code units from 0x80 on through UTF-8.

  The platform is not the URL class. Other schemes, credentials, ports, hosts in
  brackets, percent-encoded hosts and hosts outside ASCII do not parse here; a host that
  ends in a number, the path segments \<^verbatim>\<open>.\<close> and \<^verbatim>\<open>..\<close>, and \<^verbatim>\<open>^\<close> in a path are
  kept as they are written.
\<close>

text \<open>C0 control or space: the code units up to 0x20.\<close>

fun is_c0_or_space :: "char \<Rightarrow> bool" where
  "is_c0_or_space (Char b0 b1 b2 b3 b4 b5 b6 b7) =
     (\<not> b7 \<and> \<not> b6 \<and> (\<not> b5 \<or> (\<not> b0 \<and> \<not> b1 \<and> \<not> b2 \<and> \<not> b3 \<and> \<not> b4)))"

definition is_tab_or_newline :: "char \<Rightarrow> bool" where
  "is_tab_or_newline c = (c \<in> set [CHR 0x09, CHR 0x0A, CHR 0x0D])"

definition strip_c0 :: "string \<Rightarrow> string" where
  "strip_c0 s = rev (dropWhile is_c0_or_space (rev (dropWhile is_c0_or_space s)))"

definition url_preprocess :: "string \<Rightarrow> string" where
  "url_preprocess s = filter (\<lambda>c. \<not> is_tab_or_newline c) (strip_c0 s)"

text \<open>
  Percent-encoding of a code unit: \<^verbatim>\<open>%\<close> and two hexadecimal digits for each byte of
  its UTF-8 encoding, which is one byte below 0x80 and two bytes from there to 0xFF.
\<close>

definition hex_digit :: "bool \<Rightarrow> bool \<Rightarrow> bool \<Rightarrow> bool \<Rightarrow> char" where
  "hex_digit b0 b1 b2 b3 =
     (if b3
      then (if b2 then (if b1 then (if b0 then CHR ''F'' else CHR ''E'')
                        else (if b0 then CHR ''D'' else CHR ''C''))
            else (if b1 then (if b0 then CHR ''B'' else CHR ''A'')
                  else (if b0 then CHR ''9'' else CHR ''8'')))
      else (if b2 then (if b1 then (if b0 then CHR ''7'' else CHR ''6'')
                        else (if b0 then CHR ''5'' else CHR ''4''))
            else (if b1 then (if b0 then CHR ''3'' else CHR ''2'')
                  else (if b0 then CHR ''1'' else CHR ''0''))))"

fun percent_byte :: "char \<Rightarrow> string" where
  "percent_byte (Char b0 b1 b2 b3 b4 b5 b6 b7) =
     [CHR ''%'', hex_digit b4 b5 b6 b7, hex_digit b0 b1 b2 b3]"

fun utf8_percent_encode :: "char \<Rightarrow> string" where
  "utf8_percent_encode (Char b0 b1 b2 b3 b4 b5 b6 b7) =
     (if b7
      then percent_byte (Char b6 True False False False False True True) @
           percent_byte (Char b0 b1 b2 b3 b4 b5 False True)
      else percent_byte (Char b0 b1 b2 b3 b4 b5 b6 b7))"

text \<open>
  The sets of code points that are percent-encoded: C0 controls and everything above
  0x7E in all of them, and a few more characters in the fragment, in the query of a
  special URL, and in the path.
\<close>

fun in_c0_control_set :: "char \<Rightarrow> bool" where
  "in_c0_control_set (Char b0 b1 b2 b3 b4 b5 b6 b7) =
     (b7 \<or> (\<not> b6 \<and> \<not> b5) \<or> (b0 \<and> b1 \<and> b2 \<and> b3 \<and> b4 \<and> b5 \<and> b6))"

definition in_fragment_set :: "char \<Rightarrow> bool" where
  "in_fragment_set c =
     (in_c0_control_set c \<or> c \<in> set [CHR 0x20, CHR 0x22, CHR ''<'', CHR ''>'', CHR 0x60])"

definition in_query_set :: "char \<Rightarrow> bool" where
  "in_query_set c =
     (in_c0_control_set c \<or> c \<in> set [CHR 0x20, CHR 0x22, CHR ''#'', CHR ''<'', CHR ''>''])"

definition in_special_query_set :: "char \<Rightarrow> bool" where
  "in_special_query_set c = (in_query_set c \<or> c = CHR 0x27)"

definition in_path_set :: "char \<Rightarrow> bool" where
  "in_path_set c = (in_query_set c \<or> c \<in> set [CHR ''?'', CHR 0x60, CHR ''{'', CHR ''}''])"

definition percent_encode :: "(char \<Rightarrow> bool) \<Rightarrow> string \<Rightarrow> string" where
  "percent_encode in_set s =
     concat (map (\<lambda>c. if in_set c then utf8_percent_encode c else [c]) s)"

text \<open>
  A code unit a host may hold: none of the forbidden domain code points, and nothing
  outside ASCII.
\<close>

definition is_host_char :: "char \<Rightarrow> bool" where
  "is_host_char c =
     (\<not> in_c0_control_set c \<and>
      c \<notin> set [CHR 0x20, CHR ''#'', CHR ''/'', CHR '':'', CHR ''<'', CHR ''>'', CHR ''?'',
                CHR ''@'', CHR ''['', CHR 0x5C, CHR '']'', CHR ''^'', CHR ''|'', CHR ''%''])"

text \<open>The URL object of the small platform.\<close>

record http_url =
  url_scheme :: string
  url_host :: string
  url_path :: string
  url_query :: "string option"
  url_fragment :: "string option"

definition split_scheme :: "string \<Rightarrow> (string \<times> string) option" where
  "split_scheme s =
     (if ci_startsWith s ''https:'' then Some (''https'', drop 6 s)
      else if ci_startsWith s ''http:'' then Some (''http'', drop 5 s)
      else None)"

definition is_slash :: "char \<Rightarrow> bool" where
  "is_slash c = (c = CHR ''/'' \<or> c = CHR 0x5C)"

definition in_authority :: "char \<Rightarrow> bool" where
  "in_authority c = (\<not> is_slash c \<and> c \<noteq> CHR ''?'')"

definition after_first :: "char \<Rightarrow> string \<Rightarrow> string option" where
  "after_first d s = (case dropWhile (\<lambda>c. c \<noteq> d) s of [] \<Rightarrow> None | h # t \<Rightarrow> Some t)"

text \<open>The URL without its fragment, from the input up to the first \<^verbatim>\<open>#\<close>.\<close>

definition parse_body :: "string \<Rightarrow> http_url option" where
  "parse_body body =
     (case split_scheme body of
        None \<Rightarrow> None
      | Some (sch, rest) \<Rightarrow>
          (let r = dropWhile is_slash rest;
               authority = takeWhile in_authority r;
               tail = dropWhile in_authority r;
               p = takeWhile (\<lambda>c. c \<noteq> CHR ''?'') tail
           in if authority = [] \<or> \<not> list_all is_host_char authority then None
              else Some \<lparr>url_scheme = sch,
                         url_host = map toLowerCase_char authority,
                         url_path = (if p = [] then ''/''
                                     else percent_encode in_path_set
                                            (map (\<lambda>c. if c = CHR 0x5C then CHR ''/'' else c) p)),
                         url_query = map_option (percent_encode in_special_query_set)
                                       (after_first (CHR ''?'') tail),
                         url_fragment = None\<rparr>))"

definition http_parse :: "string \<Rightarrow> http_url option" where
  "http_parse input =
     (let s = url_preprocess input
      in map_option
           (\<lambda>u. u\<lparr>url_fragment := map_option (percent_encode in_fragment_set)
                                     (after_first (CHR ''#'') s)\<rparr>)
           (parse_body (takeWhile (\<lambda>c. c \<noteq> CHR ''#'') s)))"

definition http_clear_hash :: "http_url \<Rightarrow> http_url" where
  "http_clear_hash u = u\<lparr>url_fragment := None\<rparr>"

definition http_toString :: "http_url \<Rightarrow> string" where
  "http_toString u =
     url_scheme u @ ''://'' @ url_host u @ url_path u @
     (case url_query u of None \<Rightarrow> [] | Some q \<Rightarrow> CHR ''?'' # q) @
     (case url_fragment u of None \<Rightarrow> [] | Some f \<Rightarrow> CHR ''#'' # f)"

definition http_pathname :: "http_url \<Rightarrow> string" where
  "http_pathname u = url_path u"

definition http_origin :: "http_url \<Rightarrow> string" where
  "http_origin u = url_scheme u @ ''://'' @ url_host u"

text \<open>
  \<^verbatim>\<open>localeCompare\<close> without a locale compares by the collation of the default locale.
  \<open>collate\<close> stands in for it on printable ASCII, after the root collation of the
  Unicode CLDR: at the first level white space, punctuation and symbols come before the
  digits and the digits before the letters, in the order of \<open>collation_order\<close>, and a
  letter and its capital are equal; strings equal at the first level are told apart by
  case, the lower-case letter first. The code units outside printable ASCII are not
  modelled: they all have one rank, below the others.
\<close>

fun lex_compare :: "nat list \<Rightarrow> nat list \<Rightarrow> int" where
  "lex_compare [] [] = 0"
| "lex_compare [] (y # ys) = - 1"
| "lex_compare (x # xs) [] = 1"
| "lex_compare (x # xs) (y # ys) =
     (if x = y then lex_compare xs ys else if x < y then - 1 else 1)"

definition collation_order :: string where
  "collation_order =
     '' _-,;:!?.'' @ [CHR 0x27, CHR 0x22] @ ''()[]{}@*/'' @ [CHR 0x5C] @ ''&#%'' @ [CHR 0x60] @
     ''^+<=>|~$0123456789abcdefghijklmnopqrstuvwxyz''"

fun index_from :: "nat \<Rightarrow> string \<Rightarrow> char \<Rightarrow> nat" where
  "index_from n [] c = 0"
| "index_from n (x # xs) c = (if x = c then n else index_from (Suc n) xs c)"

definition primary_key :: "char \<Rightarrow> nat" where
  "primary_key c = index_from 1 collation_order (toLowerCase_char c)"

definition tertiary_key :: "char \<Rightarrow> nat" where
  "tertiary_key c = (if c \<in> set ''ABCDEFGHIJKLMNOPQRSTUVWXYZ'' then 1 else 0)"

definition collate :: "string \<Rightarrow> string \<Rightarrow> int" where
  "collate a b =
     (let p = lex_compare (map primary_key a) (map primary_key b)
      in if p \<noteq> 0 then p else lex_compare (map tertiary_key a) (map tertiary_key b))"

definition http_platform :: "http_url platform" where
  "http_platform =
     \<lparr>URL_parse = http_parse, URL_clear_hash = http_clear_hash, URL_toString = http_toString,
      URL_pathname = http_pathname, URL_origin = http_origin, localeCompare = collate\<rparr>"




section \<open>Observing a run\<close>

text \<open>
  Read off a run's effects: the URLs that entered the frontier, the URLs navigated to,
  and whether an effect is a \<^verbatim>\<open>done\<close> event. \<open>same_origin_page\<close> is the test both
  sitemap loops apply to a URL, and \<open>sitemap_page_urls\<close> are the page URLs of a fetched
  sitemap: those of its children for an index, its own otherwise.
\<close>

fun enqueued :: "effect list \<Rightarrow> string list" where
  "enqueued [] = []"
| "enqueued (Enqueue u # t) = u # enqueued t"
| "enqueued (e # t) = enqueued t"

fun navigated :: "effect list \<Rightarrow> string list" where
  "navigated [] = []"
| "navigated (PageGoto u # t) = u # navigated t"
| "navigated (e # t) = navigated t"

fun is_done :: "effect \<Rightarrow> bool" where
  "is_done (SendEvent (Done m ls tot fs fp ps)) = True"
| "is_done e = False"

definition same_origin_page :: "'u platform \<Rightarrow> string \<Rightarrow> string \<Rightarrow> bool" where
  "same_origin_page plat origin url = (startsWith url origin \<and> \<not> isNonHtmlResource plat url)"

definition sitemap_page_urls :: "world \<Rightarrow> string \<Rightarrow> string list" where
  "sitemap_page_urls w xml =
     (if isSitemapIndex xml then concat (map (fetch_child w) (extractSitemapUrls xml))
      else parseSitemapUrls xml)"

section \<open>An example site\<close>

text \<open>
  A site of a few pages, with a sitemap index of two children, a flat sitemap and an
  empty one, and the effects of five runs on it as the model computes them.
\<close>

definition demo_pages :: "string \<Rightarrow> nat \<Rightarrow> string \<Rightarrow> string list option" where
  "demo_pages selector n url =
     (if url = ''https://x.com'' then
        Some [''https://x.com/a#top'', ''https://x.com/b'', ''https://x.com/a'',
              ''https://other.com/z'', ''https://x.com/file.pdf'']
      else if url = ''https://x.com/a'' then Some [''https://x.com/'', ''https://x.com/b#x'']
      else if url = ''https://x.com/b'' then Some [''https://x.com/c/d'']
      else None)"

definition demo_index :: string where
  "demo_index = ''<sitemapindex><sitemap><loc>https://x.com/s1.xml</loc></sitemap><sitemap><loc>https://x.com/s2.xml</loc></sitemap></sitemapindex>''"

definition demo_child1 :: string where
  "demo_child1 = ''<urlset><url><loc>https://x.com/a</loc></url><url><loc>https://x.com/a/b</loc></url><url><loc>https://x.com/c/d/e</loc></url></urlset>''"

definition demo_child2 :: string where
  "demo_child2 = ''<urlset><url><loc>https://x.com/f</loc></url><url><loc>https://x.com/g</loc></url><url><loc>https://x.com/h</loc></url></urlset>''"

definition demo_flat :: string where
  "demo_flat = ''<urlset><url><loc>https://x.com/a/b</loc></url><url><loc>https://x.com/a</loc></url><url><loc>https://x.com/c/d/e</loc></url></urlset>''"

definition demo_fetch :: "string \<Rightarrow> string option" where
  "demo_fetch url =
     (if url = ''https://x.com/sitemap.xml'' then Some demo_index
      else if url = ''https://x.com/s1.xml'' then Some demo_child1
      else if url = ''https://x.com/s2.xml'' then Some demo_child2
      else if url = ''https://x.com/flat.xml'' then Some demo_flat
      else if url = ''https://x.com/empty.xml'' then Some ''<urlset></urlset>''
      else None)"

definition demo_world :: world where
  "demo_world =
     \<lparr>fetchXml = demo_fetch, browser_setup = BrowserReady, page_links = demo_pages,
      browser_close = True\<rparr>"

definition demo_crawl_trace :: "effect list" where
  "demo_crawl_trace =
     [SendEvent (Status Starting StartingPageCrawl 0 0 0 None),
      SendEvent (Status Browser LaunchingBrowser 1 0 0 None),
      ChromiumLaunch,
      Enqueue ''https://x.com'',
      SendEvent (Status Scanning (ScanningPage 1 ''/'') 1 0 1 (Some ''https://x.com'')),
      PageGoto ''https://x.com'',
      Enqueue ''https://x.com/a'',
      Enqueue ''https://x.com/b'',
      SendEvent (Status Scanning (FoundNewLinks 2 ''/'' 3) 3 0 1 None),
      PageGoto ''https://x.com/a'',
      PageGoto ''https://x.com/b'',
      Enqueue ''https://x.com/c/d'',
      SendEvent (Status Scanning (FoundNewLinks 1 ''/b'' 4) 4 0 3 None),
      PageGoto ''https://x.com/c/d'',
      SendEvent (Status Scanning (AllReachableScanned 4) 4 0 4 None),
      BrowserClose,
      SendEvent (Done (DiscoveryCompleteCrawl 4 4)
        [''https://x.com/'', ''https://x.com/a'', ''https://x.com/b'', ''https://x.com/c/d'']
        4 0 3 4),
      StreamClose]"

definition demo_index_trace :: "effect list" where
  "demo_index_trace =
     [SendEvent (Status Starting StartingSitemapDiscovery 0 0 0 None),
      SendEvent (Status Sitemap (FetchingSitemap ''https://x.com/sitemap.xml'') 1 0 0 None),
      FetchXml ''https://x.com/sitemap.xml'',
      SendEvent (Status Sitemap (FoundSitemapIndex 2) 1 0 0 None),
      FetchXml ''https://x.com/s1.xml'',
      FetchXml ''https://x.com/s2.xml'',
      SendEvent (Status Sitemap (ProcessingSitemaps 2 2 6) 7 6 0 None),
      SendEvent (Status SitemapDone (SitemapParsed 6) 7 6 0 None),
      SendEvent (Done (DiscoveryCompleteSitemap 6)
        [''https://x.com/'', ''https://x.com/a'', ''https://x.com/f'', ''https://x.com/g'',
         ''https://x.com/h'', ''https://x.com/a/b'', ''https://x.com/c/d/e'']
        7 6 0 0),
      StreamClose]"

definition demo_flat_trace :: "effect list" where
  "demo_flat_trace =
     [SendEvent (Status Starting StartingSitemapDiscovery 0 0 0 None),
      SendEvent (Status Sitemap (FetchingSitemap ''https://x.com/flat.xml'') 1 0 0 None),
      FetchXml ''https://x.com/flat.xml'',
      SendEvent (Status Sitemap ParsingSitemap 1 0 0 None),
      SendEvent (Status SitemapDone (SitemapParsed 3) 4 3 0 None),
      SendEvent (Done (DiscoveryCompleteSitemap 3)
        [''https://x.com/'', ''https://x.com/a'', ''https://x.com/a/b'', ''https://x.com/c/d/e'']
        4 3 0 0),
      StreamClose]"

definition demo_empty_trace :: "effect list" where
  "demo_empty_trace =
     [SendEvent (Status Starting StartingSitemapDiscovery 0 0 0 None),
      SendEvent (Status Sitemap (FetchingSitemap ''https://x.com/empty.xml'') 1 0 0 None),
      FetchXml ''https://x.com/empty.xml'',
      SendEvent (Status Sitemap ParsingSitemap 1 0 0 None),
      SendEvent (Status SitemapDone (SitemapParsed 0) 1 0 0 None),
      SendEvent (Done (DiscoveryCompleteSitemap 0) [''https://x.com/report.pdf''] 1 0 0 0),
      StreamClose]"

definition demo_unreachable_trace :: "effect list" where
  "demo_unreachable_trace =
     [SendEvent (Status Starting StartingPageCrawl 0 0 0 None),
      SendEvent (Status Browser LaunchingBrowser 1 0 0 None),
      ChromiumLaunch,
      Enqueue ''https://x.com/down#now'',
      SendEvent (Status Scanning (ScanningPage 1 ''/down'') 1 0 1 (Some ''https://x.com/down#now'')),
      PageGoto ''https://x.com/down#now'',
      SendEvent (Status Scanning (AllReachableScanned 1) 1 0 1 None),
      BrowserClose,
      SendEvent (Done (DiscoveryCompleteCrawl 1 1) [''https://x.com/down''] 1 0 0 1),
      StreamClose]"

section \<open>The order the links are sorted into\<close>

text \<open>
  \<open>collation_ordered\<close>: \<^verbatim>\<open>localeCompare\<close> is a total preorder. \<open>depth_then_path\<close>: both
  links parse, and the first has the smaller path depth or the same depth and a pathname
  that \<^verbatim>\<open>localeCompare\<close> does not put after the second's.
\<close>

definition collation_ordered :: "'u platform \<Rightarrow> bool" where
  "collation_ordered plat =
     ((\<forall>a b. localeCompare plat a b \<le> 0 \<or> localeCompare plat b a \<le> 0) \<and>
      (\<forall>a b c. localeCompare plat a b \<le> 0 \<and> localeCompare plat b c \<le> 0 \<longrightarrow>
                localeCompare plat a c \<le> 0))"

definition depth_then_path :: "'u platform \<Rightarrow> string \<Rightarrow> string \<Rightarrow> bool" where
  "depth_then_path plat a b =
     (case URL_parse plat a of
        None \<Rightarrow> False
      | Some ua \<Rightarrow>
          (case URL_parse plat b of
             None \<Rightarrow> False
           | Some ub \<Rightarrow>
               path_depth (URL_pathname plat ua) < path_depth (URL_pathname plat ub) \<or>
               (path_depth (URL_pathname plat ua) = path_depth (URL_pathname plat ub) \<and>
                localeCompare plat (URL_pathname plat ua) (URL_pathname plat ub) \<le> 0)))"

section \<open>The discipline of the frontier\<close>

text \<open>
  \<open>never_requeued\<close>: wherever the effects are cut in two, no URL navigated to in the
  first part is enqueued in the second. \<open>frontier_ok\<close> adds that no URL is enqueued twice
  and none navigated to twice. \<open>frontier_inv\<close> is the invariant that gives it: the queue
  has no duplicates and shares nothing with the visited set, both together are the URLs
  enqueued so far, and every navigation was to a visited URL. While links are scanned
  the queue lies within the discovered set (\<open>scanning_inv\<close>); at the head of the loop it
  does, or it is the initial queue of the start URL alone (\<open>loop_inv\<close>).
  \<open>other_effect\<close>: an effect that is neither an enqueue nor a navigation.
\<close>

definition never_requeued :: "effect list \<Rightarrow> bool" where
  "never_requeued t = (\<forall>a b u. t = a @ b \<and> PageGoto u \<in> set a \<longrightarrow> Enqueue u \<notin> set b)"

definition frontier_ok :: "effect list \<Rightarrow> bool" where
  "frontier_ok t = (distinct (enqueued t) \<and> distinct (navigated t) \<and> never_requeued t)"

definition frontier_inv :: "state \<Rightarrow> bool" where
  "frontier_inv s =
     (distinct (pagesToVisit s) \<and>
      set (pagesToVisit s) \<inter> set (visited s) = {} \<and>
      set (enqueued (trace s)) = set (pagesToVisit s) \<union> set (visited s) \<and>
      set (navigated (trace s)) \<subseteq> set (visited s) \<and>
      frontier_ok (trace s))"

definition scanning_inv :: "state \<Rightarrow> bool" where
  "scanning_inv s = (frontier_inv s \<and> set (pagesToVisit s) \<subseteq> set (discoveredLinks s))"

definition loop_inv :: "string \<Rightarrow> state \<Rightarrow> bool" where
  "loop_inv startUrl s =
     (frontier_inv s \<and>
      (set (pagesToVisit s) \<subseteq> set (discoveredLinks s) \<or> pagesToVisit s = [startUrl]))"

fun other_effect :: "effect \<Rightarrow> bool" where
  "other_effect (Enqueue u) = False"
| "other_effect (PageGoto u) = False"
| "other_effect e = True"

section \<open>Progress events, and states of the example crawl\<close>

text \<open>
  \<open>reports_page n\<close>: a status event whose \<^verbatim>\<open>pagesScanned\<close> is \<open>n\<close>. The states are
  those of the crawl of the example site: where the loop starts and ends, before and
  after the visit of the first page, and where crawl mode is entered.
\<close>

fun reports_page :: "nat \<Rightarrow> effect \<Rightarrow> bool" where
  "reports_page n (SendEvent (Status ph m tot fs ps cu)) = (ps = n)"
| "reports_page n e = False"

definition demo_loop_start :: state where
  "demo_loop_start =
     \<lparr>discoveredLinks = [''https://x.com/''], visited = [], sitemapLinksCount = 0,
      pagesToVisit = [''https://x.com''], pagesVisited = 0, newLinksFromPages = 0,
      trace = [SendEvent (Status Starting StartingPageCrawl 0 0 0 None),
               SendEvent (Status Browser LaunchingBrowser 1 0 0 None),
               ChromiumLaunch, Enqueue ''https://x.com'']\<rparr>"

definition demo_loop_end :: state where
  "demo_loop_end =
     \<lparr>discoveredLinks = [''https://x.com/'', ''https://x.com/a'', ''https://x.com/b'',
                         ''https://x.com/c/d''],
      visited = [''https://x.com'', ''https://x.com/a'', ''https://x.com/b'', ''https://x.com/c/d''],
      sitemapLinksCount = 0, pagesToVisit = [], pagesVisited = 4, newLinksFromPages = 3,
      trace = take 15 demo_crawl_trace\<rparr>"

definition demo_first_page :: state where
  "demo_first_page =
     \<lparr>discoveredLinks = [''https://x.com/''], visited = [''https://x.com''], sitemapLinksCount = 0,
      pagesToVisit = [], pagesVisited = 1, newLinksFromPages = 0, trace = []\<rparr>"

definition demo_first_page_done :: state where
  "demo_first_page_done =
     \<lparr>discoveredLinks = [''https://x.com/'', ''https://x.com/a'', ''https://x.com/b''],
      visited = [''https://x.com''], sitemapLinksCount = 0,
      pagesToVisit = [''https://x.com/a'', ''https://x.com/b''],
      pagesVisited = 1, newLinksFromPages = 2,
      trace = [SendEvent (Status Scanning (ScanningPage 1 ''/'') 1 0 1 (Some ''https://x.com'')),
               PageGoto ''https://x.com'', Enqueue ''https://x.com/a'', Enqueue ''https://x.com/b'',
               SendEvent (Status Scanning (FoundNewLinks 2 ''/'' 3) 3 0 1 None)]\<rparr>"

definition demo_crawl_start :: state where
  "demo_crawl_start =
     \<lparr>discoveredLinks = [''https://x.com/''], visited = [], sitemapLinksCount = 0,
      pagesToVisit = [], pagesVisited = 0, newLinksFromPages = 0,
      trace = [SendEvent (Status Starting StartingPageCrawl 0 0 0 None)]\<rparr>"

section \<open>Substrings\<close>

lemma startsWith_iff: "startsWith s p \<longleftrightarrow> (\<exists>b. s = p @ b)"
  by (induction s p rule: startsWith.induct) auto

lemma str_includes_iff: "str_includes s p \<longleftrightarrow> (\<exists>a b. s = a @ p @ b)"
proof (induction s)
  case Nil
  then show ?case by auto
next
  case (Cons c cs)
  show ?case
  proof
    assume "str_includes (c # cs) p"
    then consider "startsWith (c # cs) p" | "str_includes cs p" by auto
    then show "\<exists>a b. c # cs = a @ p @ b"
    proof cases
      case 1
      then obtain b where "c # cs = p @ b" using startsWith_iff by blast
      then have "c # cs = [] @ p @ b" by simp
      then show ?thesis by blast
    next
      case 2
      then obtain a b where "cs = a @ p @ b" using Cons.IH by blast
      then have "c # cs = (c # a) @ p @ b" by simp
      then show ?thesis by blast
    qed
  next
    assume "\<exists>a b. c # cs = a @ p @ b"
    then obtain a b where ab: "c # cs = a @ p @ b" by blast
    show "str_includes (c # cs) p"
    proof (cases a)
      case Nil
      with ab have "startsWith (c # cs) p" using startsWith_iff by fastforce
      then show ?thesis by simp
    next
      case (Cons x a')
      with ab have "cs = a' @ p @ b" by simp
      then have "str_includes cs p" using Cons.IH by blast
      then show ?thesis by simp
    qed
  qed
qed

section \<open>The event emitter after close\<close>

lemma sends_when_closed: "isClosed s \<Longrightarrow> foldl (sendEvent ops) s ds = s"
  by (induction ds) (simp_all add: sendEvent_def)

text \<open>
  C8. Once \<^verbatim>\<open>close()\<close> has been called the emitter is closed, whatever the controller
  did; a later \<^verbatim>\<open>sendEvent\<close>, and any number of them in a row, returns the state as it
  is (nothing is enqueued, the flag and the controller are unchanged), and a second
  \<^verbatim>\<open>close()\<close> leaves the state as the first one left it, without calling the
  controller again.
\<close>

theorem sse_send_after_close_noop_close_idempotent:
  "isClosed (close ops s) \<and>
   sendEvent ops (close ops s) d = close ops s \<and>
   foldl (sendEvent ops) (close ops s) ds = close ops s \<and>
   close ops (close ops s) = close ops s"
proof -
  have c: "isClosed (close ops s)"
    by (simp add: close_def split: prod.splits)
  then have "foldl (sendEvent ops) (close ops s) ds = close ops s"
    by (rule sends_when_closed)
  with c show ?thesis
    by (simp add: close_def sendEvent_def split: prod.splits)
qed

section \<open>Detecting a sitemap index\<close>

text \<open>
  C6, as stated: \<^verbatim>\<open>isSitemapIndex\<close> is true exactly when the document has the index
  wrapper element \<^verbatim>\<open><sitemapindex\<close>. It fails on a flat sitemap that has no wrapper
  element and mentions \<^verbatim>\<open><sitemap>\<close>, here in a comment.
\<close>

theorem isSitemapIndex_wrapper_counterexample:
  "\<not> (isSitemapIndex ''<urlset><!-- <sitemap> --><url><loc>https://x.com/a</loc></url></urlset>''
      = str_includes ''<urlset><!-- <sitemap> --><url><loc>https://x.com/a</loc></url></urlset>''
          ''<sitemapindex'')"
  by (simp add: isSitemapIndex_def)

text \<open>
  C6, amended: \<^verbatim>\<open>isSitemapIndex\<close> is true exactly when the text contains
  \<^verbatim>\<open><sitemapindex\<close> or contains \<^verbatim>\<open><sitemap>\<close>; on a document that contains neither
  it is false.
\<close>

theorem isSitemapIndex_iff_substring:
  "isSitemapIndex xml \<longleftrightarrow>
     (\<exists>a b. xml = a @ ''<sitemapindex'' @ b) \<or> (\<exists>a b. xml = a @ ''<sitemap>'' @ b)"
  by (simp only: isSitemapIndex_def str_includes_iff)

section \<open>The small platform round-trips\<close>



































section \<open>Canonical URLs\<close>







section \<open>Effects and fields of the state\<close>

lemma trace_effect_of [simp]: "trace (effect_of s e) = trace s @ [e]"
  by (simp add: effect_of_def)

lemma trace_emit [simp]: "trace (emit s ev) = trace s @ [SendEvent ev]"
  by (simp add: emit_def)

lemma fields_effect_of [simp]:
  "discoveredLinks (effect_of s e) = discoveredLinks s"
  "visited (effect_of s e) = visited s"
  "sitemapLinksCount (effect_of s e) = sitemapLinksCount s"
  "pagesToVisit (effect_of s e) = pagesToVisit s"
  "pagesVisited (effect_of s e) = pagesVisited s"
  "newLinksFromPages (effect_of s e) = newLinksFromPages s"
  by (simp_all add: effect_of_def)

lemma fields_emit [simp]:
  "discoveredLinks (emit s ev) = discoveredLinks s"
  "visited (emit s ev) = visited s"
  "sitemapLinksCount (emit s ev) = sitemapLinksCount s"
  "pagesToVisit (emit s ev) = pagesToVisit s"
  "pagesVisited (emit s ev) = pagesVisited s"
  "newLinksFromPages (emit s ev) = newLinksFromPages s"
  by (simp_all add: emit_def)

lemma foldl_effect_of [simp]:
  "trace (foldl effect_of s es) = trace s @ es"
  "discoveredLinks (foldl effect_of s es) = discoveredLinks s"
  "sitemapLinksCount (foldl effect_of s es) = sitemapLinksCount s"
  by (induction es arbitrary: s) simp_all

subsection \<open>Sitemap URLs\<close>

lemma add_sitemap_url_fields [simp]:
  "trace (add_sitemap_url plat origin s url) = trace s"
  "discoveredLinks (add_sitemap_url plat origin s url) =
     (if same_origin_page plat origin url then set_add (discoveredLinks s) (cleanUrl plat url)
      else discoveredLinks s)"
  "sitemapLinksCount (add_sitemap_url plat origin s url) =
     sitemapLinksCount s + (if same_origin_page plat origin url then 1 else 0)"
  by (simp_all add: add_sitemap_url_def same_origin_page_def)

lemma add_sitemap_urls_append:
  "add_sitemap_urls plat origin s (xs @ ys) =
     add_sitemap_urls plat origin (add_sitemap_urls plat origin s xs) ys"
  by (simp add: add_sitemap_urls_def)

lemma add_sitemap_urls_concat:
  "foldl (add_sitemap_urls plat origin) s xss = add_sitemap_urls plat origin s (concat xss)"
  by (induction xss arbitrary: s) (simp_all add: add_sitemap_urls_append, simp add: add_sitemap_urls_def)

lemma add_sitemap_urls_trace [simp]: "trace (add_sitemap_urls plat origin s urls) = trace s"
  unfolding add_sitemap_urls_def by (induction urls arbitrary: s) simp_all

lemma add_sitemap_urls_count:
  "sitemapLinksCount (add_sitemap_urls plat origin s urls) =
     sitemapLinksCount s + length (filter (same_origin_page plat origin) urls)"
  unfolding add_sitemap_urls_def by (induction urls arbitrary: s) simp_all

lemma set_set_add [simp]: "set (set_add xs x) = insert x (set xs)"
  by (auto simp: set_add_def)

lemma distinct_set_add [simp]: "distinct (set_add xs x) = distinct xs"
  by (auto simp: set_add_def)

lemma add_sitemap_urls_set:
  "set (discoveredLinks (add_sitemap_urls plat origin s urls)) =
     set (discoveredLinks s) \<union> cleanUrl plat ` {u \<in> set urls. same_origin_page plat origin u}"
  unfolding add_sitemap_urls_def by (induction urls arbitrary: s) auto

lemma add_sitemap_urls_distinct:
  "distinct (discoveredLinks s) \<Longrightarrow> distinct (discoveredLinks (add_sitemap_urls plat origin s urls))"
  unfolding add_sitemap_urls_def by (induction urls arbitrary: s) simp_all

text \<open>The batches add the URLs of all remaining child sitemaps.\<close>

lemma sitemap_batch_fields:
  "trace (sitemap_batch plat w origin cs i s) =
     trace s @ map FetchXml (take PARALLEL_LIMIT (drop i cs)) @
     [SendEvent (Status Sitemap
        (ProcessingSitemaps (i + length (take PARALLEL_LIMIT (drop i cs))) (length cs)
           (sitemapLinksCount (sitemap_batch plat w origin cs i s)))
        (length (discoveredLinks (sitemap_batch plat w origin cs i s)))
        (sitemapLinksCount (sitemap_batch plat w origin cs i s)) 0 None)]"
  "discoveredLinks (sitemap_batch plat w origin cs i s) =
     discoveredLinks (add_sitemap_urls plat origin s
        (concat (map (fetch_child w) (take PARALLEL_LIMIT (drop i cs)))))"
  "sitemapLinksCount (sitemap_batch plat w origin cs i s) =
     sitemapLinksCount s + length (filter (same_origin_page plat origin)
        (concat (map (fetch_child w) (take PARALLEL_LIMIT (drop i cs)))))"
proof -
  have d: "discoveredLinks (add_sitemap_urls plat origin s' urls) =
           discoveredLinks (add_sitemap_urls plat origin s urls)"
    if "discoveredLinks s' = discoveredLinks s" for s' urls
    using that unfolding add_sitemap_urls_def
    by (induction urls arbitrary: s s') simp_all
  show "discoveredLinks (sitemap_batch plat w origin cs i s) =
     discoveredLinks (add_sitemap_urls plat origin s
        (concat (map (fetch_child w) (take PARALLEL_LIMIT (drop i cs)))))"
    unfolding sitemap_batch_def Let_def add_sitemap_urls_concat fields_emit
    by (rule d) simp
  show "sitemapLinksCount (sitemap_batch plat w origin cs i s) =
     sitemapLinksCount s + length (filter (same_origin_page plat origin)
        (concat (map (fetch_child w) (take PARALLEL_LIMIT (drop i cs)))))"
    by (simp add: sitemap_batch_def Let_def add_sitemap_urls_concat add_sitemap_urls_count)
  show "trace (sitemap_batch plat w origin cs i s) =
     trace s @ map FetchXml (take PARALLEL_LIMIT (drop i cs)) @
     [SendEvent (Status Sitemap
        (ProcessingSitemaps (i + length (take PARALLEL_LIMIT (drop i cs))) (length cs)
           (sitemapLinksCount (sitemap_batch plat w origin cs i s)))
        (length (discoveredLinks (sitemap_batch plat w origin cs i s)))
        (sitemapLinksCount (sitemap_batch plat w origin cs i s)) 0 None)]"
    by (simp add: sitemap_batch_def Let_def add_sitemap_urls_concat)
qed

lemma drop_batch:
  "concat (map f (drop i cs)) =
   concat (map f (take n (drop i cs))) @ concat (map f (drop (i + n) cs))"
proof -
  have "drop i cs = take n (drop i cs) @ drop (i + n) cs"
    by (metis add.commute append_take_drop_id drop_drop)
  then have "concat (map f (drop i cs)) = concat (map f (take n (drop i cs) @ drop (i + n) cs))"
    by simp
  then show ?thesis by simp
qed

lemma sitemap_batches_data:
  "set (discoveredLinks (sitemap_batches plat w origin cs i s)) =
     set (discoveredLinks s) \<union>
     cleanUrl plat ` {u \<in> set (concat (map (fetch_child w) (drop i cs))). same_origin_page plat origin u} \<and>
   (distinct (discoveredLinks s) \<longrightarrow> distinct (discoveredLinks (sitemap_batches plat w origin cs i s))) \<and>
   sitemapLinksCount (sitemap_batches plat w origin cs i s) =
     sitemapLinksCount s +
     length (filter (same_origin_page plat origin) (concat (map (fetch_child w) (drop i cs))))"
proof (induction plat w origin cs i s rule: sitemap_batches.induct)
  case (1 plat w origin cs i s)
  show ?case
  proof (cases "i < length cs")
    case False
    then have "sitemap_batches plat w origin cs i s = s"
      by (subst sitemap_batches.simps) simp
    with False show ?thesis by simp
  next
    case True
    have step: "sitemap_batches plat w origin cs i s =
                sitemap_batches plat w origin cs (i + PARALLEL_LIMIT)
                  (sitemap_batch plat w origin cs i s)"
      using True by (subst sitemap_batches.simps) simp
    show ?thesis
      unfolding step drop_batch [of "fetch_child w" i cs PARALLEL_LIMIT]
      using "1.IH" [OF True]
      by (auto simp: sitemap_batch_fields add_sitemap_urls_set add_sitemap_urls_distinct)
  qed
qed

lemma sitemap_batches_trace:
  assumes "\<And>ph m a b c d. Q (SendEvent (Status ph m a b c d))" and "\<And>u. Q (FetchXml u)"
  shows "list_all Q (trace s) \<Longrightarrow> list_all Q (trace (sitemap_batches plat w origin cs i s))"
proof (induction plat w origin cs i s rule: sitemap_batches.induct)
  case (1 plat w origin cs i s)
  show ?case
  proof (cases "i < length cs")
    case False
    then have "sitemap_batches plat w origin cs i s = s"
      by (subst sitemap_batches.simps) simp
    with "1.prems" show ?thesis by simp
  next
    case True
    have step: "sitemap_batches plat w origin cs i s =
                sitemap_batches plat w origin cs (i + PARALLEL_LIMIT)
                  (sitemap_batch plat w origin cs i s)"
      using True by (subst sitemap_batches.simps) simp
    have "list_all Q (trace (sitemap_batch plat w origin cs i s))"
      using "1.prems" assms by (simp add: sitemap_batch_fields(1) list_all_iff) auto
    then show ?thesis
      unfolding step by (rule "1.IH" [OF True])
  qed
qed

subsection \<open>Sorting keeps the elements\<close>

lemma set_insert_by [simp]: "set (insert_by cmp x ys) = insert x (set ys)"
  by (induction ys) auto

lemma length_insert_by [simp]: "length (insert_by cmp x ys) = Suc (length ys)"
  by (induction ys) auto

lemma distinct_insert_by [simp]: "distinct (insert_by cmp x ys) = (x \<notin> set ys \<and> distinct ys)"
  by (induction ys) auto

lemma set_sort_by [simp]: "set (sort_by cmp xs) = set xs"
  unfolding sort_by_def by (induction xs) auto

lemma length_sort_by [simp]: "length (sort_by cmp xs) = length xs"
  unfolding sort_by_def by (induction xs) auto

lemma distinct_sort_by [simp]: "distinct (sort_by cmp xs) = distinct xs"
  using set_sort_by [of cmp, unfolded sort_by_def] unfolding sort_by_def
  by (induction xs) auto

subsection \<open>The done event of sitemap mode\<close>

lemma is_done_iff: "is_done e \<longleftrightarrow> (\<exists>m ls tot fs fp ps. e = SendEvent (Done m ls tot fs fp ps))"
  by (cases e rule: is_done.cases) auto

lemma collect_sitemap_data:
  "set (discoveredLinks (collect_sitemap plat w origin xml s)) =
     set (discoveredLinks s) \<union>
     cleanUrl plat ` {u \<in> set (sitemap_page_urls w xml). same_origin_page plat origin u}"
  "distinct (discoveredLinks s) \<Longrightarrow> distinct (discoveredLinks (collect_sitemap plat w origin xml s))"
  "sitemapLinksCount (collect_sitemap plat w origin xml s) =
     sitemapLinksCount s + length (filter (same_origin_page plat origin) (sitemap_page_urls w xml))"
proof -
  let ?s = "emit s (Status Sitemap (FoundSitemapIndex (length (extractSitemapUrls xml)))
                      (length (discoveredLinks s)) 0 0 None)"
  note b = sitemap_batches_data [of plat w origin "extractSitemapUrls xml" 0 ?s, simplified]
  show "set (discoveredLinks (collect_sitemap plat w origin xml s)) =
     set (discoveredLinks s) \<union>
     cleanUrl plat ` {u \<in> set (sitemap_page_urls w xml). same_origin_page plat origin u}"
    using b by (simp add: collect_sitemap_def Let_def sitemap_page_urls_def add_sitemap_urls_set)
  show "distinct (discoveredLinks (collect_sitemap plat w origin xml s))"
    if "distinct (discoveredLinks s)"
    using b that by (simp add: collect_sitemap_def Let_def add_sitemap_urls_distinct)
  show "sitemapLinksCount (collect_sitemap plat w origin xml s) =
     sitemapLinksCount s + length (filter (same_origin_page plat origin) (sitemap_page_urls w xml))"
    using b by (simp add: collect_sitemap_def Let_def sitemap_page_urls_def add_sitemap_urls_count)
qed

lemma collect_sitemap_trace:
  assumes "\<And>ph m a b c d. Q (SendEvent (Status ph m a b c d))" and "\<And>u. Q (FetchXml u)"
    and "list_all Q (trace s)"
  shows "list_all Q (trace (collect_sitemap plat w origin xml s))"
proof (cases "isSitemapIndex xml")
  case True
  have "list_all Q (trace (sitemap_batches plat w origin (extractSitemapUrls xml) 0
          (emit s (Status Sitemap (FoundSitemapIndex (length (extractSitemapUrls xml)))
                            (length (discoveredLinks s)) 0 0 None))))"
    by (rule sitemap_batches_trace) (use assms in simp_all)
  with True show ?thesis by (simp add: collect_sitemap_def Let_def)
next
  case False
  with assms show ?thesis by (simp add: collect_sitemap_def)
qed

lemma sitemap_mode_trace:
  "trace (sitemap_mode plat w origin sm s0) =
     (case fetchXml w sm of
        None \<Rightarrow> trace s0 @
           [SendEvent (Status Sitemap (FetchingSitemap sm) (length (discoveredLinks s0)) 0 0 None),
            FetchXml sm, SendEvent (Error FailedToParseSitemap)]
      | Some xml \<Rightarrow>
          (let s3 = collect_sitemap plat w origin xml
                      (effect_of (emit s0 (Status Sitemap (FetchingSitemap sm)
                         (length (discoveredLinks s0)) 0 0 None)) (FetchXml sm))
           in trace s3 @
              [SendEvent (Status SitemapDone (SitemapParsed (sitemapLinksCount s3))
                 (length (discoveredLinks s3)) (sitemapLinksCount s3) 0 None),
               SendEvent (Done (DiscoveryCompleteSitemap (sitemapLinksCount s3))
                 (sortLinks plat (discoveredLinks s3))
                 (length (sortLinks plat (discoveredLinks s3))) (sitemapLinksCount s3) 0 0)]))"
  by (simp add: sitemap_mode_def Let_def split: option.splits)


subsection \<open>Invariants of the crawl loop\<close>

lemma scan_links_preserves:
  assumes "\<And>s link. R s \<Longrightarrow> R (scan_link plat origin s link)"
  shows "R s \<Longrightarrow> R (scan_links plat origin s links)"
  unfolding scan_links_def by (induction links arbitrary: s) (auto intro: assms)

text \<open>
  A page visit in two phases: \<open>P\<close> holds up to the navigation, \<open>R\<close> from the navigation
  on. An exception leaves in the first phase.
\<close>

lemma visit_page_preserves:
  assumes P: "P s"
    and emitP: "\<And>s ph m a b c d. P s \<Longrightarrow> P (emit s (Status ph m a b c d))"
    and goto: "\<And>s. P s \<Longrightarrow> R (effect_of s (PageGoto url))"
    and scan: "\<And>s link. R s \<Longrightarrow> R (scan_link plat origin s link)"
    and emitR: "\<And>s ph m a b c d. R s \<Longrightarrow> R (emit s (Status ph m a b c d))"
  shows "(visit_page plat w selector origin url s = Inl s' \<longrightarrow> P s') \<and>
         (visit_page plat w selector origin url s = Inr s' \<longrightarrow> R s')"
proof -
  define s1 where "s1 = (if pagesVisited s mod 5 = 1 \<or> pagesVisited s = 1
               then (case URL_parse plat url of
                       None \<Rightarrow> None
                     | Some u \<Rightarrow>
                         Some (emit s (Status Scanning
                                 (ScanningPage (pagesVisited s) (URL_pathname plat u))
                                 (length (discoveredLinks s)) 0 (pagesVisited s) (Some url))))
               else Some s)"
  show ?thesis
  proof (cases s1)
    case None
    then have "visit_page plat w selector origin url s = Inl s"
      by (simp add: visit_page_def s1_def)
    with P show ?thesis by auto
  next
    case (Some s1')
    have P1: "P s1'"
      using Some P emitP unfolding s1_def by (auto split: if_splits option.splits)
    define s2 where "s2 = effect_of s1' (PageGoto url)"
    have R2: "R s2" unfolding s2_def using P1 by (rule goto)
    define s3 where "s3 = (case page_links w selector (pagesVisited s) url of
                          None \<Rightarrow> s2
                        | Some links \<Rightarrow>
                            (let s' = scan_links plat origin s2 links;
                                 newLinksFound = length (discoveredLinks s') - length (discoveredLinks s)
                             in if newLinksFound > 0
                                then (case URL_parse plat url of
                                        None \<Rightarrow> s'
                                      | Some u \<Rightarrow>
                                          emit s' (Status Scanning
                                            (FoundNewLinks newLinksFound (URL_pathname plat u)
                                               (length (discoveredLinks s')))
                                            (length (discoveredLinks s')) 0 (pagesVisited s')
                                            None))
                                else s'))"
    have R3: "R s3"
      unfolding s3_def Let_def using R2 scan_links_preserves [of R plat origin, OF scan] emitR
      by (auto split: option.splits)
    have "visit_page plat w selector origin url s =
            Inr (if pagesToVisit s3 = []
                 then emit s3 (Status Scanning (AllReachableScanned (pagesVisited s3))
                        (length (discoveredLinks s3)) 0 (pagesVisited s3) None)
                 else s3)"
      using Some unfolding visit_page_def s1_def [symmetric] s3_def s2_def Let_def by simp
    with R3 emitR show ?thesis by auto
  qed
qed

lemma crawl_loop_preserves:
  assumes shift: "\<And>s url rest. P s \<Longrightarrow> pagesToVisit s = url # rest \<Longrightarrow> url \<in> set (visited s) \<Longrightarrow>
                    P (s\<lparr>pagesToVisit := rest\<rparr>)"
    and visit: "\<And>s url rest s'. P s \<Longrightarrow> pagesToVisit s = url # rest \<Longrightarrow> url \<notin> set (visited s) \<Longrightarrow>
                  visit_page plat w selector origin url
                    (s\<lparr>pagesToVisit := rest, visited := visited s @ [url],
                       pagesVisited := pagesVisited s + 1\<rparr>) = Inl s' \<or>
                  visit_page plat w selector origin url
                    (s\<lparr>pagesToVisit := rest, visited := visited s @ [url],
                       pagesVisited := pagesVisited s + 1\<rparr>) = Inr s' \<Longrightarrow> P s'"
    and start: "P s"
    and result: "crawl_loop plat w selector origin s = Inl s' \<or>
                 crawl_loop plat w selector origin s = Inr s'"
  shows "P s'"
  using assms
proof (induction plat w selector origin s rule: crawl_loop.induct)
  case (1 plat w selector origin s)
  note shift = "1.prems"(1) and visit = "1.prems"(2) and start = "1.prems"(3)
    and result = "1.prems"(4)
  show ?case
  proof (cases "pagesToVisit s")
    case Nil
    with start result show ?thesis by (simp add: crawl_loop.simps)
  next
    case (Cons url rest)
    show ?thesis
    proof (cases "pagesVisited s < MAX_PAGES_SAFETY")
      case False
      with Cons start result show ?thesis by (simp add: crawl_loop.simps)
    next
      case True
      then have cap: "\<not> \<not> pagesVisited s < MAX_PAGES_SAFETY" by simp
      show ?thesis
      proof (cases "url \<in> set (visited s)")
        case v: True
        have eq: "crawl_loop plat w selector origin s =
              crawl_loop plat w selector origin (s\<lparr>pagesToVisit := rest\<rparr>)"
          using Cons True v by (subst crawl_loop.simps) simp
        have Ps: "P (s\<lparr>pagesToVisit := rest\<rparr>)"
          using start Cons v by (rule shift)
        have res: "crawl_loop plat w selector origin (s\<lparr>pagesToVisit := rest\<rparr>) = Inl s' \<or>
                   crawl_loop plat w selector origin (s\<lparr>pagesToVisit := rest\<rparr>) = Inr s'"
          using result unfolding eq .
        show ?thesis
          by (rule "1.IH"(1) [OF Cons cap v shift visit Ps res])
      next
        case v: False
        let ?s1 = "s\<lparr>pagesToVisit := rest, visited := visited s @ [url],
                       pagesVisited := pagesVisited s + 1\<rparr>"
        show ?thesis
        proof (cases "visit_page plat w selector origin url ?s1")
          case (Inl x)
          then have "crawl_loop plat w selector origin s = Inl x"
            using Cons True v by (subst crawl_loop.simps) simp
          moreover from Inl have "visit_page plat w selector origin url ?s1 = Inl x \<or>
                              visit_page plat w selector origin url ?s1 = Inr x" by (rule disjI1)
          then have "P x" by (rule visit [OF start Cons v])
          ultimately show ?thesis using result by auto
        next
          case (Inr x)
          then have eq: "crawl_loop plat w selector origin s = crawl_loop plat w selector origin x"
            using Cons True v by (subst crawl_loop.simps) simp
          from Inr have "visit_page plat w selector origin url ?s1 = Inl x \<or>
                              visit_page plat w selector origin url ?s1 = Inr x" by (rule disjI2)
          then have Px: "P x" by (rule visit [OF start Cons v])
          have res: "crawl_loop plat w selector origin x = Inl s' \<or>
                     crawl_loop plat w selector origin x = Inr s'"
            using result unfolding eq .
          show ?thesis
            by (rule "1.IH"(2) [OF Cons cap v Inr shift visit Px res])
        qed
      qed
    qed
  qed
qed

lemma crawl_loop_exit:
  "crawl_loop plat w selector origin s = Inr s' \<Longrightarrow>
     pagesToVisit s' = [] \<or> \<not> pagesVisited s' < MAX_PAGES_SAFETY"
proof (induction plat w selector origin s rule: crawl_loop.induct)
  case (1 plat w selector origin s)
  show ?case
  proof (cases "pagesToVisit s")
    case Nil
    with "1.prems" show ?thesis by (simp add: crawl_loop.simps)
  next
    case (Cons url rest)
    show ?thesis
    proof (cases "pagesVisited s < MAX_PAGES_SAFETY")
      case False
      with Cons "1.prems" show ?thesis by (simp add: crawl_loop.simps)
    next
      case True
      show ?thesis
      proof (cases "url \<in> set (visited s)")
        case v: True
        have "crawl_loop plat w selector origin s =
              crawl_loop plat w selector origin (s\<lparr>pagesToVisit := rest\<rparr>)"
          using Cons True v by (subst crawl_loop.simps) simp
        then show ?thesis
          using "1.IH"(1) [OF Cons _ v] True "1.prems" by simp
      next
        case v: False
        let ?s1 = "s\<lparr>pagesToVisit := rest, visited := visited s @ [url],
                       pagesVisited := pagesVisited s + 1\<rparr>"
        show ?thesis
        proof (cases "visit_page plat w selector origin url ?s1")
          case (Inl x)
          then have "crawl_loop plat w selector origin s = Inl x"
            using Cons True v by (subst crawl_loop.simps) simp
          with "1.prems" show ?thesis by simp
        next
          case (Inr x)
          then have "crawl_loop plat w selector origin s = crawl_loop plat w selector origin x"
            using Cons True v by (subst crawl_loop.simps) simp
          then show ?thesis
            using "1.IH"(2) [OF Cons _ v Inr] True "1.prems" by simp
        qed
      qed
    qed
  qed
qed

subsection \<open>What a page visit and the loop leave alone\<close>

lemma scan_link_trace:
  "trace (scan_link plat origin s link) = trace s \<or>
   trace (scan_link plat origin s link) = trace s @ [Enqueue (cleanUrl plat link)]"
  by (simp add: scan_link_def Let_def)

lemma scan_link_discovered:
  "set (discoveredLinks s) \<subseteq> set (discoveredLinks (scan_link plat origin s link))"
  by (auto simp: scan_link_def Let_def)

lemma crawl_loop_trace:
  assumes st: "\<And>ph m a b c d. Q (SendEvent (Status ph m a b c d))"
    and go: "\<And>u. Q (PageGoto u)" and en: "\<And>u. Q (Enqueue u)"
    and start: "list_all Q (trace s)"
    and result: "crawl_loop plat w selector origin s = Inl s' \<or>
                 crawl_loop plat w selector origin s = Inr s'"
  shows "list_all Q (trace s')"
proof (rule crawl_loop_preserves [where P = "\<lambda>s. list_all Q (trace s)", OF _ _ start result])
  fix s :: state and url rest
  assume "list_all Q (trace s)"
  then show "list_all Q (trace (s\<lparr>pagesToVisit := rest\<rparr>))" by simp
next
  fix s :: state and url rest s'
  let ?s1 = "s\<lparr>pagesToVisit := rest, visited := visited s @ [url],
               pagesVisited := pagesVisited s + 1\<rparr>"
  assume s: "list_all Q (trace s)"
    and r: "visit_page plat w selector origin url ?s1 = Inl s' \<or>
            visit_page plat w selector origin url ?s1 = Inr s'"
  have "(visit_page plat w selector origin url ?s1 = Inl s' \<longrightarrow> list_all Q (trace s')) \<and>
        (visit_page plat w selector origin url ?s1 = Inr s' \<longrightarrow> list_all Q (trace s'))"
  proof (rule visit_page_preserves [where P = "\<lambda>s. list_all Q (trace s)"
        and R = "\<lambda>s. list_all Q (trace s)"])
    show "list_all Q (trace ?s1)" using s by simp
  next
    fix s :: state and link
    assume "list_all Q (trace s)"
    then show "list_all Q (trace (scan_link plat origin s link))"
      using scan_link_trace [of plat origin s link] en by auto
  qed (simp_all add: st go)
  with r show "list_all Q (trace s')" by blast
qed

lemma crawl_loop_discovered:
  assumes start: "A \<subseteq> set (discoveredLinks s)"
    and result: "crawl_loop plat w selector origin s = Inl s' \<or>
                 crawl_loop plat w selector origin s = Inr s'"
  shows "A \<subseteq> set (discoveredLinks s')"
proof (rule crawl_loop_preserves [where P = "\<lambda>s. A \<subseteq> set (discoveredLinks s)", OF _ _ start result])
  fix s :: state and url rest
  assume "A \<subseteq> set (discoveredLinks s)"
  then show "A \<subseteq> set (discoveredLinks (s\<lparr>pagesToVisit := rest\<rparr>))" by simp
next
  fix s :: state and url rest s'
  let ?s1 = "s\<lparr>pagesToVisit := rest, visited := visited s @ [url],
               pagesVisited := pagesVisited s + 1\<rparr>"
  assume s: "A \<subseteq> set (discoveredLinks s)"
    and r: "visit_page plat w selector origin url ?s1 = Inl s' \<or>
            visit_page plat w selector origin url ?s1 = Inr s'"
  have "(visit_page plat w selector origin url ?s1 = Inl s' \<longrightarrow> A \<subseteq> set (discoveredLinks s')) \<and>
        (visit_page plat w selector origin url ?s1 = Inr s' \<longrightarrow> A \<subseteq> set (discoveredLinks s'))"
  proof (rule visit_page_preserves [where P = "\<lambda>s. A \<subseteq> set (discoveredLinks s)"
        and R = "\<lambda>s. A \<subseteq> set (discoveredLinks s)"])
    show "A \<subseteq> set (discoveredLinks ?s1)" using s by simp
  next
    fix s :: state and link
    assume "A \<subseteq> set (discoveredLinks s)"
    then show "A \<subseteq> set (discoveredLinks (scan_link plat origin s link))"
      using scan_link_discovered [of s plat origin link] by blast
  qed simp_all
  with r show "A \<subseteq> set (discoveredLinks s')" by blast
qed

subsection \<open>Where the done event comes from\<close>

lemma not_done_simps [simp]:
  "\<not> is_done (SendEvent (Status ph m a b c d))" "\<not> is_done (SendEvent (Error m))"
  "\<not> is_done (FetchXml u)" "\<not> is_done ChromiumLaunch" "\<not> is_done (PageGoto u)"
  "\<not> is_done (Enqueue u)" "\<not> is_done BrowserClose" "\<not> is_done StreamClose"
  by simp_all

lemma list_all_not_mem: "list_all (\<lambda>e. \<not> P e) t \<Longrightarrow> P x \<Longrightarrow> x \<notin> set t"
  by (auto simp: list_all_iff)

text \<open>
  In sitemap mode a done event is the last event, after a successful fetch of the
  sitemap, and carries the sorted collection.
\<close>

lemma sitemap_mode_done:
  assumes mem: "SendEvent (Done m ls tot fs fp ps) \<in> set (trace (sitemap_mode plat w origin sm s0))"
    and nd: "list_all (\<lambda>e. \<not> is_done e) (trace s0)"
  shows "\<exists>xml s3. fetchXml w sm = Some xml \<and>
           s3 = collect_sitemap plat w origin xml
                  (effect_of (emit s0 (Status Sitemap (FetchingSitemap sm)
                     (length (discoveredLinks s0)) 0 0 None)) (FetchXml sm)) \<and>
           ls = sortLinks plat (discoveredLinks s3) \<and> tot = length ls \<and>
           fs = sitemapLinksCount s3 \<and> fp = 0 \<and> ps = 0"
proof (cases "fetchXml w sm")
  case None
  with mem nd show ?thesis
    by (auto simp: sitemap_mode_trace dest: list_all_not_mem [where x = "SendEvent (Done m ls tot fs fp ps)"])
next
  case (Some xml)
  define s3 where "s3 = collect_sitemap plat w origin xml
                  (effect_of (emit s0 (Status Sitemap (FetchingSitemap sm)
                     (length (discoveredLinks s0)) 0 0 None)) (FetchXml sm))"
  have "list_all (\<lambda>e. \<not> is_done e) (trace s3)"
    unfolding s3_def by (rule collect_sitemap_trace) (use nd in simp_all)
  then have "SendEvent (Done m ls tot fs fp ps) \<notin> set (trace s3)"
    by (rule list_all_not_mem) simp
  with mem Some show ?thesis
    by (auto simp: sitemap_mode_trace Let_def s3_def)
qed

lemma crawl_mode_done:
  assumes mem: "SendEvent (Done m ls tot fs fp ps) \<in>
                  set (trace (crawl_mode plat w cssSelector origin startUrl s0))"
    and nd: "list_all (\<lambda>e. \<not> is_done e) (trace s0)"
  shows "\<exists>s'. crawl_loop plat w (link_selector cssSelector) origin
                 (effect_of (effect_of (emit s0 (Status Browser LaunchingBrowser
                     (length (discoveredLinks s0)) 0 0 None)) ChromiumLaunch
                   \<lparr>pagesToVisit := [startUrl], pagesVisited := 0, newLinksFromPages := 0\<rparr>)
                   (Enqueue startUrl)) = Inr s' \<and>
              ls = sortLinks plat (discoveredLinks s') \<and> tot = length ls \<and>
              fs = 0 \<and> fp = newLinksFromPages s' \<and> ps = pagesVisited s' \<and>
              set (discoveredLinks s0) \<subseteq> set (discoveredLinks s')"
proof -
  let ?d = "SendEvent (Done m ls tot fs fp ps)"
  let ?s2 = "effect_of (emit s0 (Status Browser LaunchingBrowser
                     (length (discoveredLinks s0)) 0 0 None)) ChromiumLaunch"
  let ?init = "effect_of (?s2\<lparr>pagesToVisit := [startUrl], pagesVisited := 0,
                   newLinksFromPages := 0\<rparr>) (Enqueue startUrl)"
  have nd0: "?d \<notin> set (trace s0)" using nd by (rule list_all_not_mem) simp
  have nd_init: "list_all (\<lambda>e. \<not> is_done e) (trace ?init)" using nd by simp
  show ?thesis
  proof (cases "browser_setup w")
    case LaunchThrows
    with mem nd0 show ?thesis by (simp add: crawl_mode_def Let_def)
  next
    case ContextThrows
    with mem nd0 show ?thesis by (simp add: crawl_mode_def Let_def)
  next
    case BrowserReady
    show ?thesis
    proof (cases "crawl_loop plat w (link_selector cssSelector) origin ?init")
      case (Inl s')
      have "list_all (\<lambda>e. \<not> is_done e) (trace s')"
      proof (rule crawl_loop_trace [OF _ _ _ nd_init])
        show "crawl_loop plat w (link_selector cssSelector) origin ?init = Inl s' \<or>
              crawl_loop plat w (link_selector cssSelector) origin ?init = Inr s'"
          using Inl by simp
      qed simp_all
      then have "?d \<notin> set (trace s')" by (rule list_all_not_mem) simp
      with mem BrowserReady Inl show ?thesis by (simp add: crawl_mode_def Let_def)
    next
      case (Inr s')
      have "list_all (\<lambda>e. \<not> is_done e) (trace s')"
      proof (rule crawl_loop_trace [OF _ _ _ nd_init])
        show "crawl_loop plat w (link_selector cssSelector) origin ?init = Inl s' \<or>
              crawl_loop plat w (link_selector cssSelector) origin ?init = Inr s'"
          using Inr by simp
      qed simp_all
      then have n: "?d \<notin> set (trace s')" by (rule list_all_not_mem) simp
      have "set (discoveredLinks s0) \<subseteq> set (discoveredLinks s')"
      proof (rule crawl_loop_discovered [where s = ?init])
        show "crawl_loop plat w (link_selector cssSelector) origin ?init = Inl s' \<or>
              crawl_loop plat w (link_selector cssSelector) origin ?init = Inr s'"
          using Inr by simp
      qed simp
      with mem BrowserReady Inr n show ?thesis
        by (cases "browser_close w") (simp_all add: crawl_mode_def Let_def)
    qed
  qed
qed

text \<open>Every done event of a run carries a sorted list that contains the start URL.\<close>

lemma discovery_done:
  assumes "SendEvent (Done m ls tot fs fp ps) \<in>
             set (trace (discovery plat w startUrl sitemapUrl cssSelector))"
  shows "\<exists>d. ls = sortLinks plat d \<and> tot = length ls \<and> cleanUrl plat startUrl \<in> set d"
proof (cases "URL_parse plat startUrl")
  case None
  with assms show ?thesis by (simp add: discovery_def)
next
  case (Some u)
  let ?s0 = "\<lparr>discoveredLinks = [], visited = [], sitemapLinksCount = 0, pagesToVisit = [],
                pagesVisited = 0, newLinksFromPages = 0, trace = []\<rparr>"
  define hasSitemap where "hasSitemap = (case sitemapUrl of None \<Rightarrow> False | Some sm \<Rightarrow> sm \<noteq> [])"
  define s2 where "s2 = (emit ?s0 (Status Starting
                         (if hasSitemap then StartingSitemapDiscovery else StartingPageCrawl)
                         0 0 0 None))\<lparr>discoveredLinks := [cleanUrl plat startUrl]\<rparr>"
  have nd: "list_all (\<lambda>e. \<not> is_done e) (trace s2)" by (simp add: s2_def)
  have d2: "discoveredLinks s2 = [cleanUrl plat startUrl]" by (simp add: s2_def)
  have disc: "discovery plat w startUrl sitemapUrl cssSelector =
        (case sitemapUrl of
           None \<Rightarrow> crawl_mode plat w cssSelector (URL_origin plat u) startUrl s2
         | Some sm \<Rightarrow> if sm \<noteq> [] then sitemap_mode plat w (URL_origin plat u) sm s2
                      else crawl_mode plat w cssSelector (URL_origin plat u) startUrl s2)"
    using Some by (cases sitemapUrl) (simp_all add: discovery_def Let_def s2_def hasSitemap_def set_add_def)
  have "discovery plat w startUrl sitemapUrl cssSelector =
          crawl_mode plat w cssSelector (URL_origin plat u) startUrl s2 \<or>
        (\<exists>sm. discovery plat w startUrl sitemapUrl cssSelector =
          sitemap_mode plat w (URL_origin plat u) sm s2)"
    unfolding disc by (cases sitemapUrl) auto
  then consider (crawl) "discovery plat w startUrl sitemapUrl cssSelector =
                      crawl_mode plat w cssSelector (URL_origin plat u) startUrl s2"
    | (sitemap) sm where "discovery plat w startUrl sitemapUrl cssSelector =
                      sitemap_mode plat w (URL_origin plat u) sm s2"
    by blast
  then show ?thesis
  proof cases
    case crawl
    from crawl_mode_done [OF assms [unfolded crawl] nd] d2 show ?thesis by auto
  next
    case sitemap
    from sitemap_mode_done [OF assms [unfolded sitemap] nd] obtain xml where
      ls: "ls = sortLinks plat (discoveredLinks (collect_sitemap plat w (URL_origin plat u) xml
                  (effect_of (emit s2 (Status Sitemap (FetchingSitemap sm)
                     (length (discoveredLinks s2)) 0 0 None)) (FetchXml sm))))"
      and tot: "tot = length ls" by blast
    have "cleanUrl plat startUrl \<in> set (discoveredLinks (collect_sitemap plat w (URL_origin plat u) xml
                  (effect_of (emit s2 (Status Sitemap (FetchingSitemap sm)
                     (length (discoveredLinks s2)) 0 0 None)) (FetchXml sm))))"
      by (simp add: collect_sitemap_data(1) d2)
    with ls tot show ?thesis by blast
  qed
qed

section \<open>The runs on the example site\<close>

lemma demo_crawl_run:
  "GET http_platform demo_world (Some ''https://x.com'') None None = Inr demo_crawl_trace"
  by code_simp

lemma demo_index_run:
  "GET http_platform demo_world (Some ''https://x.com'') (Some ''https://x.com/sitemap.xml'') None =
     Inr demo_index_trace"
  by code_simp

lemma demo_flat_run:
  "GET http_platform demo_world (Some ''https://x.com/'') (Some ''https://x.com/flat.xml'') None =
     Inr demo_flat_trace"
  by code_simp

lemma demo_empty_run:
  "GET http_platform demo_world (Some ''https://x.com/report.pdf'') (Some ''https://x.com/empty.xml'') None =
     Inr demo_empty_trace"
  by code_simp

lemma demo_unreachable_run:
  "GET http_platform demo_world (Some ''https://x.com/down#now'') None None =
     Inr demo_unreachable_trace"
  by code_simp


section \<open>The done event: total and start URL\<close>

text \<open>
  C9. Every \<^verbatim>\<open>done\<close> event a run sends, in sitemap mode or in crawl mode, has
  \<^verbatim>\<open>total\<close> equal to the length of its \<^verbatim>\<open>links\<close>.
\<close>

theorem done_total_is_links_length:
  assumes "GET plat w startUrl sitemapUrl cssSelector = Inr t"
    and "SendEvent (Done m ls tot fs fp ps) \<in> set t"
  shows "tot = length ls"
proof -
  from assms obtain su where
    "SendEvent (Done m ls tot fs fp ps) \<in> set (trace (discovery plat w su sitemapUrl cssSelector))"
    by (auto simp: GET_def split: option.splits if_splits)
  from discovery_done [OF this] show ?thesis by blast
qed


text \<open>The property on the crawl of the example site and on its sitemap index.\<close>

theorem done_total_is_links_length_witness:
  "GET http_platform demo_world (Some ''https://x.com'') None None = Inr demo_crawl_trace \<and>
   SendEvent (Done (DiscoveryCompleteCrawl 4 4)
     [''https://x.com/'', ''https://x.com/a'', ''https://x.com/b'', ''https://x.com/c/d'']
     4 0 3 4) \<in> set demo_crawl_trace \<and>
   (4 :: nat) =
     length [''https://x.com/'', ''https://x.com/a'', ''https://x.com/b'', ''https://x.com/c/d''] \<and>
   GET http_platform demo_world (Some ''https://x.com'') (Some ''https://x.com/sitemap.xml'') None =
     Inr demo_index_trace \<and>
   SendEvent (Done (DiscoveryCompleteSitemap 6)
     [''https://x.com/'', ''https://x.com/a'', ''https://x.com/f'', ''https://x.com/g'',
      ''https://x.com/h'', ''https://x.com/a/b'', ''https://x.com/c/d/e'']
     7 6 0 0) \<in> set demo_index_trace \<and>
   (7 :: nat) =
     length [''https://x.com/'', ''https://x.com/a'', ''https://x.com/f'', ''https://x.com/g'',
             ''https://x.com/h'', ''https://x.com/a/b'', ''https://x.com/c/d/e'']"
proof -
  have m1: "SendEvent (Done (DiscoveryCompleteCrawl 4 4)
     [''https://x.com/'', ''https://x.com/a'', ''https://x.com/b'', ''https://x.com/c/d'']
     4 0 3 4) \<in> set demo_crawl_trace"
    by (simp add: demo_crawl_trace_def)
  have m2: "SendEvent (Done (DiscoveryCompleteSitemap 6)
     [''https://x.com/'', ''https://x.com/a'', ''https://x.com/f'', ''https://x.com/g'',
      ''https://x.com/h'', ''https://x.com/a/b'', ''https://x.com/c/d/e'']
     7 6 0 0) \<in> set demo_index_trace"
    by (simp add: demo_index_trace_def)
  from done_total_is_links_length [OF demo_crawl_run m1]
    done_total_is_links_length [OF demo_index_run m2]
    demo_crawl_run demo_index_run m1 m2
  show ?thesis by blast
qed

text \<open>
  C10. Every \<^verbatim>\<open>done\<close> event a run sends has the canonical start URL among its
  \<^verbatim>\<open>links\<close>, whatever the pages and the sitemap gave.
\<close>

theorem done_links_contain_start:
  assumes "GET plat w (Some startUrl) sitemapUrl cssSelector = Inr t"
    and "SendEvent (Done m ls tot fs fp ps) \<in> set t"
  shows "cleanUrl plat startUrl \<in> set ls"
proof -
  from assms have
    "SendEvent (Done m ls tot fs fp ps) \<in> set (trace (discovery plat w startUrl sitemapUrl cssSelector))"
    by (auto simp: GET_def split: if_splits)
  from discovery_done [OF this] show ?thesis by (auto simp: sortLinks_def)
qed

text \<open>
  The property where the start page fails to load (and the start URL has a fragment),
  where the sitemap yields no URL at all, and where the sitemap does not list the
  start URL.
\<close>

theorem done_links_contain_start_witness:
  "GET http_platform demo_world (Some ''https://x.com/down#now'') None None =
     Inr demo_unreachable_trace \<and>
   SendEvent (Done (DiscoveryCompleteCrawl 1 1) [''https://x.com/down''] 1 0 0 1)
     \<in> set demo_unreachable_trace \<and>
   cleanUrl http_platform ''https://x.com/down#now'' \<in> set [''https://x.com/down''] \<and>
   GET http_platform demo_world (Some ''https://x.com/report.pdf'')
     (Some ''https://x.com/empty.xml'') None = Inr demo_empty_trace \<and>
   SendEvent (Done (DiscoveryCompleteSitemap 0) [''https://x.com/report.pdf''] 1 0 0 0)
     \<in> set demo_empty_trace \<and>
   cleanUrl http_platform ''https://x.com/report.pdf'' \<in> set [''https://x.com/report.pdf''] \<and>
   GET http_platform demo_world (Some ''https://x.com'') (Some ''https://x.com/sitemap.xml'') None =
     Inr demo_index_trace \<and>
   SendEvent (Done (DiscoveryCompleteSitemap 6)
     [''https://x.com/'', ''https://x.com/a'', ''https://x.com/f'', ''https://x.com/g'',
      ''https://x.com/h'', ''https://x.com/a/b'', ''https://x.com/c/d/e'']
     7 6 0 0) \<in> set demo_index_trace \<and>
   cleanUrl http_platform ''https://x.com'' \<in>
     set [''https://x.com/'', ''https://x.com/a'', ''https://x.com/f'', ''https://x.com/g'',
          ''https://x.com/h'', ''https://x.com/a/b'', ''https://x.com/c/d/e'']"
proof -
  have m1: "SendEvent (Done (DiscoveryCompleteCrawl 1 1) [''https://x.com/down''] 1 0 0 1)
     \<in> set demo_unreachable_trace"
    by (simp add: demo_unreachable_trace_def)
  have m2: "SendEvent (Done (DiscoveryCompleteSitemap 0) [''https://x.com/report.pdf''] 1 0 0 0)
     \<in> set demo_empty_trace"
    by (simp add: demo_empty_trace_def)
  have m3: "SendEvent (Done (DiscoveryCompleteSitemap 6)
     [''https://x.com/'', ''https://x.com/a'', ''https://x.com/f'', ''https://x.com/g'',
      ''https://x.com/h'', ''https://x.com/a/b'', ''https://x.com/c/d/e'']
     7 6 0 0) \<in> set demo_index_trace"
    by (simp add: demo_index_trace_def)
  from done_links_contain_start [OF demo_unreachable_run m1]
    done_links_contain_start [OF demo_empty_run m2]
    done_links_contain_start [OF demo_index_run m3]
    demo_unreachable_run demo_empty_run demo_index_run m1 m2 m3
  show ?thesis by blast
qed

subsection \<open>Insertion sort with a comparator\<close>

lemma sorted_insert_by:
  assumes le: "\<And>a b. a \<in> A \<Longrightarrow> b \<in> A \<Longrightarrow> (cmp a b \<le> 0) = le a b"
    and total: "\<And>a b. a \<in> A \<Longrightarrow> b \<in> A \<Longrightarrow> le a b \<or> le b a"
    and trans: "\<And>a b c. a \<in> A \<Longrightarrow> b \<in> A \<Longrightarrow> c \<in> A \<Longrightarrow> le a b \<Longrightarrow> le b c \<Longrightarrow> le a c"
  shows "x \<in> A \<Longrightarrow> set ys \<subseteq> A \<Longrightarrow> sorted_wrt le ys \<Longrightarrow> sorted_wrt le (insert_by cmp x ys)"
proof (induction ys)
  case Nil
  then show ?case by simp
next
  case (Cons y ys)
  show ?case
  proof (cases "cmp x y \<le> 0")
    case True
    with Cons.prems have xy: "le x y" using le by auto
    have "le x z" if "z \<in> set ys" for z
    proof -
      from that Cons.prems have "le y z" "z \<in> A" "y \<in> A" by auto
      with xy Cons.prems(1) show ?thesis using trans by blast
    qed
    with True xy Cons.prems show ?thesis by auto
  next
    case False
    with Cons.prems have "\<not> le x y" using le by auto
    with Cons.prems have yx: "le y x" using total [of x y] by auto
    from Cons have "sorted_wrt le (insert_by cmp x ys)" by auto
    with False yx Cons.prems show ?thesis by auto
  qed
qed

lemma sorted_sort_by:
  assumes le: "\<And>a b. a \<in> A \<Longrightarrow> b \<in> A \<Longrightarrow> (cmp a b \<le> 0) = le a b"
    and total: "\<And>a b. a \<in> A \<Longrightarrow> b \<in> A \<Longrightarrow> le a b \<or> le b a"
    and trans: "\<And>a b c. a \<in> A \<Longrightarrow> b \<in> A \<Longrightarrow> c \<in> A \<Longrightarrow> le a b \<Longrightarrow> le b c \<Longrightarrow> le a c"
  shows "set xs \<subseteq> A \<Longrightarrow> sorted_wrt le (sort_by cmp xs)"
proof (induction xs)
  case Nil
  then show ?case by (simp add: sort_by_def)
next
  case (Cons x xs)
  have "x \<in> A" using Cons.prems by simp
  moreover have "set (sort_by cmp xs) \<subseteq> A" using Cons.prems by simp
  moreover from Cons have "sorted_wrt le (sort_by cmp xs)" by simp
  ultimately have "sorted_wrt le (insert_by cmp x (sort_by cmp xs))"
  proof (rule sorted_insert_by [where A = A and le = le, rotated 3])
    show "\<And>a b. a \<in> A \<Longrightarrow> b \<in> A \<Longrightarrow> (cmp a b \<le> 0) = le a b" by (rule le)
    show "\<And>a b. a \<in> A \<Longrightarrow> b \<in> A \<Longrightarrow> le a b \<or> le b a" by (rule total)
    show "\<And>a b c. a \<in> A \<Longrightarrow> b \<in> A \<Longrightarrow> c \<in> A \<Longrightarrow> le a b \<Longrightarrow> le b c \<Longrightarrow> le a c"
      by (rule trans)
  qed
  then show ?case by (simp add: sort_by_def)
qed

subsection \<open>The comparator on links that parse\<close>

lemma sortLinks_sorted:
  assumes co: "collation_ordered plat" and parse: "\<forall>l\<in>set xs. URL_parse plat l \<noteq> None"
  shows "sorted_wrt (depth_then_path plat) (sortLinks plat xs)"
  unfolding sortLinks_def
proof (rule sorted_sort_by [where A = "{l. URL_parse plat l \<noteq> None}"])
  show "set xs \<subseteq> {l. URL_parse plat l \<noteq> None}" using parse by auto
next
  fix a b assume "a \<in> {l. URL_parse plat l \<noteq> None}" "b \<in> {l. URL_parse plat l \<noteq> None}"
  then show "(compare_links plat a b \<le> 0) = depth_then_path plat a b"
    by (auto simp: compare_links_def depth_then_path_def Let_def split: if_splits)
next
  fix a b assume "a \<in> {l. URL_parse plat l \<noteq> None}" "b \<in> {l. URL_parse plat l \<noteq> None}"
  then obtain ua ub where p: "URL_parse plat a = Some ua" "URL_parse plat b = Some ub" by auto
  from co have "localeCompare plat (URL_pathname plat ua) (URL_pathname plat ub) \<le> 0 \<or>
                localeCompare plat (URL_pathname plat ub) (URL_pathname plat ua) \<le> 0"
    unfolding collation_ordered_def by blast
  then show "depth_then_path plat a b \<or> depth_then_path plat b a"
    unfolding depth_then_path_def p by (simp add: linorder_neq_iff) linarith
next
  fix a b c
  assume "a \<in> {l. URL_parse plat l \<noteq> None}" "b \<in> {l. URL_parse plat l \<noteq> None}"
    "c \<in> {l. URL_parse plat l \<noteq> None}"
    and ab: "depth_then_path plat a b" and bc: "depth_then_path plat b c"
  then obtain ua ub uc where p: "URL_parse plat a = Some ua" "URL_parse plat b = Some ub"
    "URL_parse plat c = Some uc" by auto
  from co have tr: "\<And>x y z. localeCompare plat x y \<le> 0 \<Longrightarrow> localeCompare plat y z \<le> 0 \<Longrightarrow>
      localeCompare plat x z \<le> 0"
    unfolding collation_ordered_def by blast
  from ab bc show "depth_then_path plat a c"
    unfolding depth_then_path_def p
    using tr [of "URL_pathname plat ua" "URL_pathname plat ub" "URL_pathname plat uc"]
    by (simp only: option.case) linarith
qed

lemma path_depth_examples:
  "path_depth ''/'' = 0" "path_depth ''/a'' = 1" "path_depth ''/a/b'' = 2"
  "path_depth ''/c/d/e'' = 3"
  by (simp_all add: path_depth_def)

subsection \<open>The collation is an ordering\<close>

lemma lex_compare_sym: "lex_compare b a = - lex_compare a b"
  by (induction a b rule: lex_compare.induct) auto

lemma lex_compare_eq: "lex_compare a b = 0 \<longleftrightarrow> a = b"
  by (induction a b rule: lex_compare.induct) auto

lemma lex_compare_trans:
  "lex_compare a b \<le> 0 \<Longrightarrow> lex_compare b c \<le> 0 \<Longrightarrow> lex_compare a c \<le> 0"
proof (induction a b arbitrary: c rule: lex_compare.induct)
  case 1
  then show ?case by simp
next
  case (2 y ys)
  then show ?case by (cases c) auto
next
  case (3 x xs)
  then show ?case by simp
next
  case (4 x xs y ys)
  show ?case
  proof (cases c)
    case Nil
    with 4 show ?thesis by simp
  next
    case (Cons z zs)
    with "4.prems" "4.IH" [of zs] show ?thesis
      by (auto split: if_splits)
  qed
qed

lemma collate_total: "collate a b \<le> 0 \<or> collate b a \<le> 0"
  using lex_compare_sym [of "map primary_key a" "map primary_key b"]
    lex_compare_sym [of "map tertiary_key a" "map tertiary_key b"]
  by (auto simp: collate_def Let_def)

lemma collate_trans:
  assumes ab: "collate a b \<le> 0" and bc: "collate b c \<le> 0"
  shows "collate a c \<le> 0"
proof -
  let ?p = "\<lambda>x y. lex_compare (map primary_key x) (map primary_key y)"
  let ?t = "\<lambda>x y. lex_compare (map tertiary_key x) (map tertiary_key y)"
  from ab have pab: "?p a b \<le> 0" by (auto simp: collate_def Let_def split: if_splits)
  from bc have pbc: "?p b c \<le> 0" by (auto simp: collate_def Let_def split: if_splits)
  from pab pbc have pac: "?p a c \<le> 0" by (rule lex_compare_trans)
  show ?thesis
  proof (cases "?p a c = 0")
    case False
    with pac show ?thesis by (simp add: collate_def Let_def)
  next
    case True
    then have keys: "map primary_key a = map primary_key c" by (simp only: lex_compare_eq)
    from pbc have "?p c b \<ge> 0" using lex_compare_sym [of "map primary_key c" "map primary_key b"]
      by simp
    with pab have pab0: "?p a b = 0" unfolding keys by simp
    then have pbc0: "?p b c = 0"
      using lex_compare_sym [of "map primary_key c" "map primary_key b"] unfolding keys by simp
    from ab pab0 have "?t a b \<le> 0" by (simp add: collate_def Let_def)
    moreover from bc pbc0 have "?t b c \<le> 0" by (simp add: collate_def Let_def)
    ultimately have "?t a c \<le> 0" by (rule lex_compare_trans)
    with True show ?thesis by (simp add: collate_def Let_def)
  qed
qed

lemma http_collation_ordered: "collation_ordered http_platform"
  unfolding collation_ordered_def
  using collate_total collate_trans
  by (auto simp: http_platform_def)

section \<open>Sitemap mode\<close>

lemma sitemap_mode_effects:
  assumes "\<And>ev. Q (SendEvent ev)" and "\<And>u. Q (FetchXml u)" and "list_all Q (trace s0)"
  shows "list_all Q (trace (sitemap_mode plat w origin sm s0))"
proof (cases "fetchXml w sm")
  case None
  with assms show ?thesis by (simp add: sitemap_mode_trace)
next
  case (Some xml)
  have "list_all Q (trace (collect_sitemap plat w origin xml
                      (effect_of (emit s0 (Status Sitemap (FetchingSitemap sm)
                         (length (discoveredLinks s0)) 0 0 None)) (FetchXml sm))))"
    by (rule collect_sitemap_trace) (use assms in simp_all)
  with Some assms show ?thesis by (simp add: sitemap_mode_trace Let_def)
qed

lemma discovery_sitemap:
  assumes "URL_parse plat startUrl = Some u" and "sm \<noteq> []"
  shows "discovery plat w startUrl (Some sm) cssSelector =
           sitemap_mode plat w (URL_origin plat u) sm
             \<lparr>discoveredLinks = [cleanUrl plat startUrl], visited = [], sitemapLinksCount = 0,
              pagesToVisit = [], pagesVisited = 0, newLinksFromPages = 0,
              trace = [SendEvent (Status Starting StartingSitemapDiscovery 0 0 0 None)]\<rparr>"
  using assms by (simp add: discovery_def Let_def emit_def effect_of_def set_add_def)

text \<open>
  C2, as stated: in sitemap mode the result set is built solely from the fetched
  sitemap XML, as same-origin non-resource URLs. On the example site, with an empty
  sitemap and the start URL \<^verbatim>\<open>https://x.com/report.pdf\<close>, the sitemap has no page URL,
  yet the \<^verbatim>\<open>done\<close> event carries one link: the start URL, which is a resource.
\<close>

theorem sitemap_result_solely_from_sitemap_counterexample:
  "GET http_platform demo_world (Some ''https://x.com/report.pdf'')
     (Some ''https://x.com/empty.xml'') None = Inr demo_empty_trace \<and>
   SendEvent (Done (DiscoveryCompleteSitemap 0) [''https://x.com/report.pdf''] 1 0 0 0)
     \<in> set demo_empty_trace \<and>
   fetchXml demo_world ''https://x.com/empty.xml'' = Some ''<urlset></urlset>'' \<and>
   sitemap_page_urls demo_world ''<urlset></urlset>'' = [] \<and>
   isNonHtmlResource http_platform ''https://x.com/report.pdf''"
proof -
  have "SendEvent (Done (DiscoveryCompleteSitemap 0) [''https://x.com/report.pdf''] 1 0 0 0)
     \<in> set demo_empty_trace"
    by (simp add: demo_empty_trace_def)
  moreover have "fetchXml demo_world ''https://x.com/empty.xml'' = Some ''<urlset></urlset>''"
    by code_simp
  moreover have "sitemap_page_urls demo_world ''<urlset></urlset>'' = []"
    by code_simp
  moreover have "isNonHtmlResource http_platform ''https://x.com/report.pdf''"
    by code_simp
  ultimately show ?thesis using demo_empty_run by blast
qed

text \<open>
  C2, amended: in sitemap mode no browser is launched and no page navigation is issued;
  the links of the \<^verbatim>\<open>done\<close> event are, without duplicates, the canonical start URL
  together with the canonical forms of the same-origin non-resource URLs of the fetched
  sitemap XML.
\<close>

theorem sitemap_mode_never_navigates:
  assumes run: "GET plat w (Some startUrl) (Some sitemapUrl) cssSelector = Inr t"
    and sm: "sitemapUrl \<noteq> []"
  shows "ChromiumLaunch \<notin> set t \<and> (\<forall>u. PageGoto u \<notin> set t) \<and>
         (\<forall>m ls tot fs fp ps. SendEvent (Done m ls tot fs fp ps) \<in> set t \<longrightarrow>
            (\<exists>u xml. URL_parse plat startUrl = Some u \<and> fetchXml w sitemapUrl = Some xml \<and>
               set ls = insert (cleanUrl plat startUrl)
                 (cleanUrl plat ` {x \<in> set (sitemap_page_urls w xml).
                                    same_origin_page plat (URL_origin plat u) x}) \<and>
               distinct ls))"
proof -
  from run have t: "t = trace (discovery plat w startUrl (Some sitemapUrl) cssSelector) @ [StreamClose]"
    by (auto simp: GET_def split: if_splits)
  show ?thesis
  proof (cases "URL_parse plat startUrl")
    case None
    then show ?thesis by (simp add: t discovery_def)
  next
    case (Some u)
    let ?s2 = "\<lparr>discoveredLinks = [cleanUrl plat startUrl], visited = [], sitemapLinksCount = 0,
              pagesToVisit = [], pagesVisited = 0, newLinksFromPages = 0,
              trace = [SendEvent (Status Starting StartingSitemapDiscovery 0 0 0 None)]\<rparr>"
    let ?Q = "\<lambda>e. e \<noteq> ChromiumLaunch \<and> (\<forall>u. e \<noteq> PageGoto u)"
    have d: "discovery plat w startUrl (Some sitemapUrl) cssSelector =
             sitemap_mode plat w (URL_origin plat u) sitemapUrl ?s2"
      using Some sm by (rule discovery_sitemap)
    have "list_all ?Q (trace (sitemap_mode plat w (URL_origin plat u) sitemapUrl ?s2))"
      by (rule sitemap_mode_effects) simp_all
    then have quiet: "ChromiumLaunch \<notin> set t \<and> (\<forall>u. PageGoto u \<notin> set t)"
      unfolding t d by (auto simp: list_all_iff)
    have links: "\<exists>u xml. URL_parse plat startUrl = Some u \<and> fetchXml w sitemapUrl = Some xml \<and>
               set ls = insert (cleanUrl plat startUrl)
                 (cleanUrl plat ` {x \<in> set (sitemap_page_urls w xml).
                                    same_origin_page plat (URL_origin plat u) x}) \<and>
               distinct ls"
      if mem: "SendEvent (Done m ls tot fs fp ps) \<in> set t" for m ls tot fs fp ps
    proof -
      from mem have "SendEvent (Done m ls tot fs fp ps) \<in>
                       set (trace (sitemap_mode plat w (URL_origin plat u) sitemapUrl ?s2))"
        unfolding t d by simp
      from sitemap_mode_done [OF this] obtain xml where
        xml: "fetchXml w sitemapUrl = Some xml" and
        ls: "ls = sortLinks plat (discoveredLinks (collect_sitemap plat w (URL_origin plat u) xml
                  (effect_of (emit ?s2 (Status Sitemap (FetchingSitemap sitemapUrl)
                     (length (discoveredLinks ?s2)) 0 0 None)) (FetchXml sitemapUrl))))"
        by auto
      have "set ls = insert (cleanUrl plat startUrl)
                 (cleanUrl plat ` {x \<in> set (sitemap_page_urls w xml).
                                    same_origin_page plat (URL_origin plat u) x})"
        unfolding ls by (simp add: sortLinks_def collect_sitemap_data(1))
      moreover have "distinct ls"
        unfolding ls by (simp add: sortLinks_def collect_sitemap_data(2))
      ultimately show ?thesis using Some xml by blast
    qed
    from quiet links show ?thesis by blast
  qed
qed

text \<open>The property on the sitemap index of the example site.\<close>

theorem sitemap_mode_never_navigates_witness:
  "GET http_platform demo_world (Some ''https://x.com'') (Some ''https://x.com/sitemap.xml'') None =
     Inr demo_index_trace \<and>
   ''https://x.com/sitemap.xml'' \<noteq> [] \<and>
   ChromiumLaunch \<notin> set demo_index_trace \<and>
   (\<forall>u. PageGoto u \<notin> set demo_index_trace) \<and>
   SendEvent (Done (DiscoveryCompleteSitemap 6)
     [''https://x.com/'', ''https://x.com/a'', ''https://x.com/f'', ''https://x.com/g'',
      ''https://x.com/h'', ''https://x.com/a/b'', ''https://x.com/c/d/e'']
     7 6 0 0) \<in> set demo_index_trace \<and>
   (\<exists>u xml. URL_parse http_platform ''https://x.com'' = Some u \<and>
      fetchXml demo_world ''https://x.com/sitemap.xml'' = Some xml \<and>
      set [''https://x.com/'', ''https://x.com/a'', ''https://x.com/f'', ''https://x.com/g'',
           ''https://x.com/h'', ''https://x.com/a/b'', ''https://x.com/c/d/e''] =
        insert (cleanUrl http_platform ''https://x.com'')
          (cleanUrl http_platform ` {x \<in> set (sitemap_page_urls demo_world xml).
                                      same_origin_page http_platform (URL_origin http_platform u) x}) \<and>
      distinct [''https://x.com/'', ''https://x.com/a'', ''https://x.com/f'', ''https://x.com/g'',
                ''https://x.com/h'', ''https://x.com/a/b'', ''https://x.com/c/d/e''])"
proof -
  have m: "SendEvent (Done (DiscoveryCompleteSitemap 6)
     [''https://x.com/'', ''https://x.com/a'', ''https://x.com/f'', ''https://x.com/g'',
      ''https://x.com/h'', ''https://x.com/a/b'', ''https://x.com/c/d/e'']
     7 6 0 0) \<in> set demo_index_trace"
    by (simp add: demo_index_trace_def)
  have ne: "''https://x.com/sitemap.xml'' \<noteq> []" by simp
  from sitemap_mode_never_navigates [OF demo_index_run ne] m demo_index_run ne
  show ?thesis by blast
qed


lemma card_image_distinct: "distinct (map f xs) \<Longrightarrow> card (f ` set xs) = length xs"
  by (metis distinct_card length_map set_map)

section \<open>The frontier\<close>

lemma enqueued_append [simp]: "enqueued (a @ b) = enqueued a @ enqueued b"
  by (induction a rule: enqueued.induct) simp_all

lemma navigated_append [simp]: "navigated (a @ b) = navigated a @ navigated b"
  by (induction a rule: navigated.induct) simp_all

lemma set_enqueued: "u \<in> set (enqueued t) \<longleftrightarrow> Enqueue u \<in> set t"
  by (induction t rule: enqueued.induct) auto

lemma set_navigated: "u \<in> set (navigated t) \<longleftrightarrow> PageGoto u \<in> set t"
  by (induction t rule: navigated.induct) auto

lemma never_requeued_append:
  assumes "never_requeued t" and "\<And>u. e = Enqueue u \<Longrightarrow> PageGoto u \<notin> set t"
  shows "never_requeued (t @ [e])"
  unfolding never_requeued_def
proof (intro allI impI)
  fix a b u
  assume h: "t @ [e] = a @ b \<and> PageGoto u \<in> set a"
  show "Enqueue u \<notin> set b"
  proof (cases b rule: rev_cases)
    case Nil
    then show ?thesis by simp
  next
    case (snoc b' x)
    with h have t: "t = a @ b'" and x: "x = e" by simp_all
    from assms(1) t h have "Enqueue u \<notin> set b'" unfolding never_requeued_def by blast
    moreover have "e \<noteq> Enqueue u"
    proof
      assume "e = Enqueue u"
      then have "PageGoto u \<notin> set t" by (rule assms(2))
      with t h show False by simp
    qed
    ultimately show ?thesis using snoc x by simp
  qed
qed

lemma frontier_ok_other: "frontier_ok t \<Longrightarrow> other_effect e \<Longrightarrow> frontier_ok (t @ [e])"
  unfolding frontier_ok_def
  by (cases e) (auto intro: never_requeued_append)

lemma frontier_ok_others: "list_all other_effect t \<Longrightarrow> frontier_ok t"
proof (induction t rule: rev_induct)
  case Nil
  then show ?case by (simp add: frontier_ok_def never_requeued_def)
next
  case (snoc e t)
  then show ?case by (simp add: frontier_ok_other)
qed

lemma scanning_inv_emit: "scanning_inv s \<Longrightarrow> scanning_inv (emit s ev)"
  unfolding scanning_inv_def frontier_inv_def by (auto simp: frontier_ok_other)

lemma scanning_inv_goto:
  assumes "scanning_inv s" and "url \<in> set (visited s)"
    and "url \<notin> set (navigated (trace s))"
  shows "scanning_inv (effect_of s (PageGoto url))"
  using assms unfolding scanning_inv_def frontier_inv_def frontier_ok_def
  by (auto intro: never_requeued_append)

text \<open>
  A link is pushed only if its canonical form is new to the discovered set, which
  holds the whole queue, and is not in the visited set.
\<close>

lemma scanning_inv_scan_link:
  assumes inv: "scanning_inv s"
  shows "scanning_inv (scan_link plat origin s link)"
proof -
  define c where "c = cleanUrl plat link"
  show ?thesis
  proof (cases "startsWith c origin \<and> \<not> isNonHtmlResource plat c \<and> c \<notin> set (discoveredLinks s)")
    case False
    then have "scan_link plat origin s link = s"
      by (auto simp: scan_link_def Let_def c_def)
    with inv show ?thesis by simp
  next
    case True
    with inv have cq: "c \<notin> set (pagesToVisit s)" by (auto simp: scanning_inv_def)
    show ?thesis
    proof (cases "c \<in> set (visited s)")
      case v: True
      then have eq: "scan_link plat origin s link =
            s\<lparr>discoveredLinks := discoveredLinks s @ [c],
              newLinksFromPages := newLinksFromPages s + 1\<rparr>"
        using True by (simp add: scan_link_def Let_def c_def [symmetric])
      show ?thesis unfolding eq using inv by (auto simp: scanning_inv_def frontier_inv_def)
    next
      case v: False
      with inv have "c \<notin> set (navigated (trace s))"
        by (auto simp: scanning_inv_def frontier_inv_def)
      then have ng: "PageGoto c \<notin> set (trace s)" by (simp add: set_navigated)
      have eq: "scan_link plat origin s link =
            effect_of (s\<lparr>discoveredLinks := discoveredLinks s @ [c],
                        newLinksFromPages := newLinksFromPages s + 1,
                        pagesToVisit := pagesToVisit s @ [c]\<rparr>) (Enqueue c)"
        using True v by (simp add: scan_link_def Let_def c_def [symmetric])
      have nr: "never_requeued (trace s @ [Enqueue c])"
        using inv ng
        by (auto simp: scanning_inv_def frontier_inv_def frontier_ok_def intro: never_requeued_append)
      from inv cq v have notq: "c \<notin> set (enqueued (trace s))"
        by (auto simp: scanning_inv_def frontier_inv_def)
      show ?thesis
        unfolding eq using inv notq cq v nr
        by (auto simp: scanning_inv_def frontier_inv_def frontier_ok_def)
    qed
  qed
qed

lemma loop_inv_crawl_loop:
  assumes inv: "loop_inv su s"
    and result: "crawl_loop plat w selector origin s = Inl s' \<or>
                 crawl_loop plat w selector origin s = Inr s'"
  shows "loop_inv su s'"
proof (rule crawl_loop_preserves [where P = "loop_inv su", OF _ _ inv result])
  fix s :: state and url rest
  assume "loop_inv su s" "pagesToVisit s = url # rest" "url \<in> set (visited s)"
  then show "loop_inv su (s\<lparr>pagesToVisit := rest\<rparr>)"
    by (auto simp: loop_inv_def frontier_inv_def)
next
  fix s :: state and url rest s'
  let ?s1 = "s\<lparr>pagesToVisit := rest, visited := visited s @ [url],
               pagesVisited := pagesVisited s + 1\<rparr>"
  let ?P = "\<lambda>s. scanning_inv s \<and> url \<in> set (visited s) \<and> url \<notin> set (navigated (trace s))"
  assume s: "loop_inv su s" and q: "pagesToVisit s = url # rest"
    and v: "url \<notin> set (visited s)"
    and r: "visit_page plat w selector origin url ?s1 = Inl s' \<or>
            visit_page plat w selector origin url ?s1 = Inr s'"
  have "(visit_page plat w selector origin url ?s1 = Inl s' \<longrightarrow> ?P s') \<and>
        (visit_page plat w selector origin url ?s1 = Inr s' \<longrightarrow> scanning_inv s')"
  proof (rule visit_page_preserves [where P = ?P and R = scanning_inv])
    show "?P ?s1" using s q v by (auto simp: loop_inv_def scanning_inv_def frontier_inv_def)
  next
    fix s :: state and ph m a b c d
    assume "?P s"
    then show "?P (emit s (Status ph m a b c d))" by (simp add: scanning_inv_emit)
  next
    fix s :: state
    assume "?P s"
    then show "scanning_inv (effect_of s (PageGoto url))"
      by (simp add: scanning_inv_goto)
  next
    fix s :: state and link
    assume "scanning_inv s"
    then show "scanning_inv (scan_link plat origin s link)"
      by (rule scanning_inv_scan_link)
  next
    fix s :: state and ph m a b c d
    assume "scanning_inv s"
    then show "scanning_inv (emit s (Status ph m a b c d))" by (rule scanning_inv_emit)
  qed
  with r have "scanning_inv s'" by blast
  then show "loop_inv su s'" by (simp add: loop_inv_def scanning_inv_def)
qed

lemma others_no_queue: "list_all other_effect t \<Longrightarrow> enqueued t = [] \<and> navigated t = []"
proof (induction t)
  case Nil
  then show ?case by simp
next
  case (Cons e t)
  then show ?case by (cases e) simp_all
qed

lemma crawl_mode_frontier:
  assumes quiet: "list_all other_effect (trace s0)" and v0: "visited s0 = []"
  shows "frontier_ok (trace (crawl_mode plat w cssSelector origin su s0))"
proof -
  let ?s2 = "effect_of (emit s0 (Status Browser LaunchingBrowser
                     (length (discoveredLinks s0)) 0 0 None)) ChromiumLaunch"
  let ?init = "effect_of (?s2\<lparr>pagesToVisit := [su], pagesVisited := 0,
                   newLinksFromPages := 0\<rparr>) (Enqueue su)"
  have q2: "list_all other_effect (trace ?s2)" using quiet by simp
  show ?thesis
  proof (cases "browser_setup w")
    case LaunchThrows
    have "list_all other_effect (trace (emit ?s2 (Error DiscoveryFailed)))"
      using q2 by simp
    then show ?thesis using LaunchThrows by (simp add: crawl_mode_def Let_def frontier_ok_others)
  next
    case ContextThrows
    have "list_all other_effect (trace (effect_of (emit ?s2 (Error DiscoveryFailed)) BrowserClose))"
      using q2 by simp
    then show ?thesis using ContextThrows by (simp add: crawl_mode_def Let_def frontier_ok_others)
  next
    case BrowserReady
    define s2 where "s2 = ?s2"
    have q2': "list_all other_effect (trace s2)" unfolding s2_def by (rule q2)
    from others_no_queue [OF q2'] have e2: "enqueued (trace s2) = []" "navigated (trace s2) = []"
      by simp_all
    then have "PageGoto su \<notin> set (trace s2)"
      using set_navigated [of su "trace s2"] by simp
    moreover have "never_requeued (trace s2)"
      using frontier_ok_others [OF q2'] by (simp add: frontier_ok_def)
    ultimately have "never_requeued (trace s2 @ [Enqueue su])"
      by (intro never_requeued_append) simp_all
    then have "loop_inv su (effect_of (s2\<lparr>pagesToVisit := [su], pagesVisited := 0,
                   newLinksFromPages := 0\<rparr>) (Enqueue su))"
      using e2 v0 by (simp add: loop_inv_def frontier_inv_def frontier_ok_def s2_def)
    then have init: "loop_inv su ?init" unfolding s2_def .
    show ?thesis
    proof (cases "crawl_loop plat w (link_selector cssSelector) origin ?init")
      case (Inl s')
      have "loop_inv su s'"
      proof (rule loop_inv_crawl_loop [OF init])
        show "crawl_loop plat w (link_selector cssSelector) origin ?init = Inl s' \<or>
              crawl_loop plat w (link_selector cssSelector) origin ?init = Inr s'"
          using Inl by simp
      qed
      then have "frontier_ok (trace s')" by (simp add: loop_inv_def frontier_inv_def)
      then have "frontier_ok ((trace s' @ [SendEvent (Error DiscoveryFailed)]) @ [BrowserClose])"
        by (intro frontier_ok_other) simp_all
      then show ?thesis using BrowserReady Inl by (simp add: crawl_mode_def Let_def)
    next
      case (Inr s')
      have "loop_inv su s'"
      proof (rule loop_inv_crawl_loop [OF init])
        show "crawl_loop plat w (link_selector cssSelector) origin ?init = Inl s' \<or>
              crawl_loop plat w (link_selector cssSelector) origin ?init = Inr s'"
          using Inr by simp
      qed
      then have ok: "frontier_ok (trace s')" by (simp add: loop_inv_def frontier_inv_def)
      show ?thesis
      proof (cases "browser_close w")
        case True
        from ok have "frontier_ok ((trace s' @ [BrowserClose]) @
                   [SendEvent (Done (DiscoveryCompleteCrawl (pagesVisited s')
                       (length (sortLinks plat (discoveredLinks s'))))
                     (sortLinks plat (discoveredLinks s'))
                     (length (sortLinks plat (discoveredLinks s'))) 0 (newLinksFromPages s')
                     (pagesVisited s'))])"
          by (intro frontier_ok_other) simp_all
        then show ?thesis using BrowserReady Inr True by (simp add: crawl_mode_def Let_def)
      next
        case False
        from ok have "frontier_ok (((trace s' @ [BrowserClose]) @
                   [SendEvent (Error DiscoveryFailed)]) @ [BrowserClose])"
          by (intro frontier_ok_other) simp_all
        then show ?thesis using BrowserReady Inr False by (simp add: crawl_mode_def Let_def)
      qed
    qed
  qed
qed

lemma discovery_frontier:
  "frontier_ok (trace (discovery plat w su sitemapUrl cssSelector))"
proof (cases "URL_parse plat su")
  case None
  then show ?thesis by (simp add: discovery_def frontier_ok_others)
next
  case (Some u)
  let ?s0 = "\<lparr>discoveredLinks = [], visited = [], sitemapLinksCount = 0, pagesToVisit = [],
                pagesVisited = 0, newLinksFromPages = 0, trace = []\<rparr>"
  define hasSitemap where "hasSitemap = (case sitemapUrl of None \<Rightarrow> False | Some sm \<Rightarrow> sm \<noteq> [])"
  define s2 where "s2 = (emit ?s0 (Status Starting
                         (if hasSitemap then StartingSitemapDiscovery else StartingPageCrawl)
                         0 0 0 None))\<lparr>discoveredLinks := [cleanUrl plat su]\<rparr>"
  have quiet: "list_all other_effect (trace s2)" by (simp add: s2_def)
  have d2: "visited s2 = []" by (simp add: s2_def)
  have disc: "discovery plat w su sitemapUrl cssSelector =
        (case sitemapUrl of
           None \<Rightarrow> crawl_mode plat w cssSelector (URL_origin plat u) su s2
         | Some sm \<Rightarrow> if sm \<noteq> [] then sitemap_mode plat w (URL_origin plat u) sm s2
                      else crawl_mode plat w cssSelector (URL_origin plat u) su s2)"
    using Some by (cases sitemapUrl) (simp_all add: discovery_def Let_def s2_def hasSitemap_def set_add_def)
  have "discovery plat w su sitemapUrl cssSelector =
          crawl_mode plat w cssSelector (URL_origin plat u) su s2 \<or>
        (\<exists>sm. discovery plat w su sitemapUrl cssSelector =
          sitemap_mode plat w (URL_origin plat u) sm s2)"
    unfolding disc by (cases sitemapUrl) auto
  then consider (crawl) "discovery plat w su sitemapUrl cssSelector =
                      crawl_mode plat w cssSelector (URL_origin plat u) su s2"
    | (sitemap) sm where "discovery plat w su sitemapUrl cssSelector =
                      sitemap_mode plat w (URL_origin plat u) sm s2"
    by blast
  then show ?thesis
  proof cases
    case crawl
    show ?thesis unfolding crawl using quiet d2 by (rule crawl_mode_frontier)
  next
    case sitemap
    have "list_all other_effect (trace (sitemap_mode plat w (URL_origin plat u) sm s2))"
      by (rule sitemap_mode_effects) (use quiet in simp_all)
    then show ?thesis unfolding sitemap by (rule frontier_ok_others)
  qed
qed

text \<open>
  C1. In every run: no URL enters \<^verbatim>\<open>pagesToVisit\<close> twice (the seeding with the start
  URL included), no URL is navigated to twice, and no URL is enqueued after it was
  navigated to. A link is pushed onto the queue only if its canonical form is neither
  in the discovered set nor in the visited set.
\<close>

theorem frontier_entered_at_most_once:
  assumes "GET plat w startUrl sitemapUrl cssSelector = Inr t"
  shows "distinct (enqueued t) \<and> distinct (navigated t) \<and>
         (\<forall>a b u. t = a @ b \<and> PageGoto u \<in> set a \<longrightarrow> Enqueue u \<notin> set b) \<and>
         (\<forall>origin s link. pagesToVisit (scan_link plat origin s link) \<noteq> pagesToVisit s \<longrightarrow>
            cleanUrl plat link \<notin> set (discoveredLinks s) \<and>
            cleanUrl plat link \<notin> set (visited s))"
proof -
  from assms obtain su where
    t: "t = trace (discovery plat w su sitemapUrl cssSelector) @ [StreamClose]"
    by (auto simp: GET_def split: option.splits if_splits)
  have "frontier_ok (trace (discovery plat w su sitemapUrl cssSelector))"
    by (rule discovery_frontier)
  then have "frontier_ok t" unfolding t by (rule frontier_ok_other) simp
  moreover have "\<forall>origin s link. pagesToVisit (scan_link plat origin s link) \<noteq> pagesToVisit s \<longrightarrow>
            cleanUrl plat link \<notin> set (discoveredLinks s) \<and>
            cleanUrl plat link \<notin> set (visited s)"
    by (auto simp: scan_link_def Let_def)
  ultimately show ?thesis unfolding frontier_ok_def never_requeued_def by blast
qed

text \<open>
  The property on the crawl of the example site, where the second page links back to
  the start page and to a page already queued.
\<close>

theorem frontier_entered_at_most_once_witness:
  "GET http_platform demo_world (Some ''https://x.com'') None None = Inr demo_crawl_trace \<and>
   enqueued demo_crawl_trace =
     [''https://x.com'', ''https://x.com/a'', ''https://x.com/b'', ''https://x.com/c/d''] \<and>
   navigated demo_crawl_trace =
     [''https://x.com'', ''https://x.com/a'', ''https://x.com/b'', ''https://x.com/c/d''] \<and>
   distinct (enqueued demo_crawl_trace) \<and> distinct (navigated demo_crawl_trace) \<and>
   PageGoto ''https://x.com/a'' \<in> set (take 10 demo_crawl_trace) \<and>
   Enqueue ''https://x.com/a'' \<notin> set (drop 10 demo_crawl_trace)"
proof -
  note main = frontier_entered_at_most_once [OF demo_crawl_run]
  have e: "enqueued demo_crawl_trace =
     [''https://x.com'', ''https://x.com/a'', ''https://x.com/b'', ''https://x.com/c/d'']"
    by (simp add: demo_crawl_trace_def)
  have n: "navigated demo_crawl_trace =
     [''https://x.com'', ''https://x.com/a'', ''https://x.com/b'', ''https://x.com/c/d'']"
    by (simp add: demo_crawl_trace_def)
  have g: "PageGoto ''https://x.com/a'' \<in> set (take 10 demo_crawl_trace)"
    by (simp add: demo_crawl_trace_def)
  have "demo_crawl_trace = take 10 demo_crawl_trace @ drop 10 demo_crawl_trace" by simp
  with main g have "Enqueue ''https://x.com/a'' \<notin> set (drop 10 demo_crawl_trace)" by blast
  with main e n g demo_crawl_run show ?thesis by blast
qed

section \<open>Progress events of the crawl\<close>

lemma scan_links_trace: "\<exists>us. trace (scan_links plat origin s links) = trace s @ map Enqueue us"
  unfolding scan_links_def
proof (induction links arbitrary: s)
  case Nil
  have "trace s = trace s @ map Enqueue []" by simp
  then show ?case by (simp only: foldl_Nil) blast
next
  case (Cons l links)
  obtain us where us: "trace (foldl (scan_link plat origin) (scan_link plat origin s l) links) =
                       trace (scan_link plat origin s l) @ map Enqueue us"
    using Cons [of "scan_link plat origin s l"] by blast
  from scan_link_trace [of plat origin s l]
  have "\<exists>vs. trace (scan_link plat origin s l) = trace s @ map Enqueue vs"
  proof
    assume "trace (scan_link plat origin s l) = trace s"
    then have "trace (scan_link plat origin s l) = trace s @ map Enqueue []" by simp
    then show ?thesis by blast
  next
    assume "trace (scan_link plat origin s l) = trace s @ [Enqueue (cleanUrl plat l)]"
    then have "trace (scan_link plat origin s l) = trace s @ map Enqueue [cleanUrl plat l]" by simp
    then show ?thesis by blast
  qed
  then obtain vs where "trace (scan_link plat origin s l) = trace s @ map Enqueue vs" by blast
  with us have "trace (foldl (scan_link plat origin) s (l # links)) = trace s @ map Enqueue (vs @ us)"
    by simp
  then show ?case by blast
qed

text \<open>
  What one page visit sends, when no exception leaves the loop: possibly the scanning
  status, the navigation, the pushes, possibly the new-links status, possibly the
  all-scanned status.
\<close>

lemma visit_page_effects:
  assumes "visit_page plat w selector origin url s = Inr s'"
  shows "\<exists>e1 us e3 e4.
     trace s' = trace s @ e1 @ [PageGoto url] @ map Enqueue us @ e3 @ e4 \<and>
     (pagesVisited s mod 5 \<noteq> 1 \<longrightarrow> e1 = []) \<and>
     (pagesVisited s mod 5 = 1 \<longrightarrow>
        (\<exists>path. e1 = [SendEvent (Status Scanning (ScanningPage (pagesVisited s) path)
                         (length (discoveredLinks s)) 0 (pagesVisited s) (Some url))])) \<and>
     (e3 = [] \<or> (\<exists>n path tot. e3 = [SendEvent (Status Scanning (FoundNewLinks n path tot)
                                          tot 0 (pagesVisited s) None)])) \<and>
     (length (discoveredLinks s) < length (discoveredLinks s') \<and> URL_parse plat url \<noteq> None \<longrightarrow>
        (\<exists>path. e3 = [SendEvent (Status Scanning
                         (FoundNewLinks (length (discoveredLinks s') - length (discoveredLinks s))
                            path (length (discoveredLinks s')))
                         (length (discoveredLinks s')) 0 (pagesVisited s) None)])) \<and>
     (pagesToVisit s' \<noteq> [] \<longrightarrow> e4 = []) \<and>
     (pagesToVisit s' = [] \<longrightarrow>
        e4 = [SendEvent (Status Scanning (AllReachableScanned (pagesVisited s))
                (length (discoveredLinks s')) 0 (pagesVisited s) None)])"
proof -
  define s1 where "s1 = (if pagesVisited s mod 5 = 1 \<or> pagesVisited s = 1
               then (case URL_parse plat url of
                       None \<Rightarrow> None
                     | Some u \<Rightarrow>
                         Some (emit s (Status Scanning
                                 (ScanningPage (pagesVisited s) (URL_pathname plat u))
                                 (length (discoveredLinks s)) 0 (pagesVisited s) (Some url))))
               else Some s)"
  from assms obtain s1' where s1': "s1 = Some s1'"
    by (cases s1) (simp_all add: visit_page_def s1_def)
  have one: "pagesVisited s = 1 \<Longrightarrow> pagesVisited s mod 5 = 1" by simp
  obtain e1 where e1: "trace s1' = trace s @ e1"
    "pagesVisited s mod 5 \<noteq> 1 \<longrightarrow> e1 = []"
    "pagesVisited s mod 5 = 1 \<longrightarrow>
        (\<exists>path. e1 = [SendEvent (Status Scanning (ScanningPage (pagesVisited s) path)
                         (length (discoveredLinks s)) 0 (pagesVisited s) (Some url))])"
    and f1: "discoveredLinks s1' = discoveredLinks s" "pagesVisited s1' = pagesVisited s"
  proof (cases "pagesVisited s mod 5 = 1")
    case True
    with s1' obtain u where "URL_parse plat url = Some u"
      and "s1' = emit s (Status Scanning (ScanningPage (pagesVisited s) (URL_pathname plat u))
                                 (length (discoveredLinks s)) 0 (pagesVisited s) (Some url))"
      by (auto simp: s1_def split: option.splits)
    with True that [of "[SendEvent (Status Scanning (ScanningPage (pagesVisited s) (URL_pathname plat u))
                                 (length (discoveredLinks s)) 0 (pagesVisited s) (Some url))]"]
    show ?thesis by simp
  next
    case False
    with one have "pagesVisited s \<noteq> 1" by blast
    with False s1' have "s1' = s" by (simp add: s1_def)
    with False that [of "[]"] show ?thesis by simp
  qed
  define s2 where "s2 = effect_of s1' (PageGoto url)"
  define s3 where "s3 = (case page_links w selector (pagesVisited s) url of
                          None \<Rightarrow> s2
                        | Some links \<Rightarrow>
                            (let s' = scan_links plat origin s2 links;
                                 newLinksFound = length (discoveredLinks s') - length (discoveredLinks s)
                             in if newLinksFound > 0
                                then (case URL_parse plat url of
                                        None \<Rightarrow> s'
                                      | Some u \<Rightarrow>
                                          emit s' (Status Scanning
                                            (FoundNewLinks newLinksFound (URL_pathname plat u)
                                               (length (discoveredLinks s')))
                                            (length (discoveredLinks s')) 0 (pagesVisited s')
                                            None))
                                else s'))"
  have res: "s' = (if pagesToVisit s3 = []
                 then emit s3 (Status Scanning (AllReachableScanned (pagesVisited s3))
                        (length (discoveredLinks s3)) 0 (pagesVisited s3) None)
                 else s3)"
    using assms s1' unfolding visit_page_def s1_def [symmetric] s3_def s2_def Let_def by simp
  obtain us e3 where e3: "trace s3 = trace s2 @ map Enqueue us @ e3"
    "e3 = [] \<or> (\<exists>n path tot. e3 = [SendEvent (Status Scanning (FoundNewLinks n path tot)
                                          tot 0 (pagesVisited s) None)])"
    "length (discoveredLinks s) < length (discoveredLinks s3) \<and> URL_parse plat url \<noteq> None \<longrightarrow>
        (\<exists>path. e3 = [SendEvent (Status Scanning
                         (FoundNewLinks (length (discoveredLinks s3) - length (discoveredLinks s))
                            path (length (discoveredLinks s3)))
                         (length (discoveredLinks s3)) 0 (pagesVisited s) None)])"
    and f3: "pagesVisited s3 = pagesVisited s"
  proof (cases "page_links w selector (pagesVisited s) url")
    case None
    then have "s3 = s2" by (simp add: s3_def)
    with that [of "[]" "[]"] f1 show ?thesis by (simp add: s2_def)
  next
    case (Some links)
    define sc where "sc = scan_links plat origin s2 links"
    obtain us where us: "trace sc = trace s2 @ map Enqueue us"
      unfolding sc_def using scan_links_trace by blast
    have pv: "pagesVisited sc = pagesVisited s"
      unfolding sc_def by (simp add: scan_links_pagesVisited s2_def f1)
    show ?thesis
    proof (cases "length (discoveredLinks s) < length (discoveredLinks sc)")
      case False
      then have "s3 = sc" using Some by (simp add: s3_def Let_def sc_def)
      with that [of us "[]"] us pv False show ?thesis by simp
    next
      case grew: True
      show ?thesis
      proof (cases "URL_parse plat url")
        case None
        then have "s3 = sc" using Some grew by (simp add: s3_def Let_def sc_def)
        with that [of us "[]"] us pv None show ?thesis by simp
      next
        case (Some u)
        then have "s3 = emit sc (Status Scanning
                       (FoundNewLinks (length (discoveredLinks sc) - length (discoveredLinks s))
                          (URL_pathname plat u) (length (discoveredLinks sc)))
                       (length (discoveredLinks sc)) 0 (pagesVisited s) None)"
          using \<open>page_links w selector (pagesVisited s) url = Some links\<close> grew pv
          by (simp add: s3_def Let_def sc_def)
        with that [of us "[SendEvent (Status Scanning
                       (FoundNewLinks (length (discoveredLinks sc) - length (discoveredLinks s))
                          (URL_pathname plat u) (length (discoveredLinks sc)))
                       (length (discoveredLinks sc)) 0 (pagesVisited s) None)]"] us pv
        show ?thesis by simp
      qed
    qed
  qed
  define e4 where "e4 = (if pagesToVisit s3 = []
                 then [SendEvent (Status Scanning (AllReachableScanned (pagesVisited s))
                        (length (discoveredLinks s3)) 0 (pagesVisited s) None)]
                 else [])"
  have tr: "trace s' = trace s @ e1 @ [PageGoto url] @ map Enqueue us @ e3 @ e4"
    unfolding res e4_def using e1(1) e3(1) f3 by (simp add: s2_def)
  have d: "discoveredLinks s' = discoveredLinks s3" "pagesToVisit s' = pagesToVisit s3"
    unfolding res by simp_all
  have e4a: "pagesToVisit s' \<noteq> [] \<longrightarrow> e4 = []"
    and e4b: "pagesToVisit s' = [] \<longrightarrow>
        e4 = [SendEvent (Status Scanning (AllReachableScanned (pagesVisited s))
                (length (discoveredLinks s')) 0 (pagesVisited s) None)]"
    unfolding d e4_def by simp_all
  from tr e1(2,3) e3(2) e3(3) [folded d(1)] e4a e4b show ?thesis by blast
qed


text \<open>
  C5, as stated: a status event is sent for each page visited. On the example site the
  crawl navigates to four pages, and no status event reports the second one: it is not
  the first of five, it yields no new link, and the queue is not empty after it.
\<close>

theorem status_after_each_page_counterexample:
  "GET http_platform demo_world (Some ''https://x.com'') None None = Inr demo_crawl_trace \<and>
   navigated demo_crawl_trace =
     [''https://x.com'', ''https://x.com/a'', ''https://x.com/b'', ''https://x.com/c/d''] \<and>
   list_ex (reports_page 1) demo_crawl_trace \<and>
   \<not> list_ex (reports_page 2) demo_crawl_trace"
proof -
  have "navigated demo_crawl_trace =
     [''https://x.com'', ''https://x.com/a'', ''https://x.com/b'', ''https://x.com/c/d'']"
    by (simp add: demo_crawl_trace_def)
  moreover have "list_ex (reports_page 1) demo_crawl_trace"
    by (simp add: demo_crawl_trace_def)
  moreover have "\<not> list_ex (reports_page 2) demo_crawl_trace"
    by (simp add: demo_crawl_trace_def)
  ultimately show ?thesis using demo_crawl_run by blast
qed

end
